theory Spec2Isabelle
  imports Complex_Main "HOL-Library.Word"
begin

section \<open>Python and numpy values\<close>

text \<open>
  Python integers are unbounded (\<open>int\<close>). A double is represented by the real number
  it stands for, and the arithmetic on doubles is a parameter of the model, the record
  \<open>float_ops\<close>: the code is what the definitions below say, for the operations of the
  machine. Overflow, underflow, infinities and NaN are not modelled.
\<close>

datatype error = AssertionError | ValueError

record float_ops =
  fl_int :: "int \<Rightarrow> real"
  fl_add :: "real \<Rightarrow> real \<Rightarrow> real"
  fl_sub :: "real \<Rightarrow> real \<Rightarrow> real"
  fl_mul :: "real \<Rightarrow> real \<Rightarrow> real"
  fl_div :: "real \<Rightarrow> real \<Rightarrow> real"
  fl_truediv :: "int \<Rightarrow> int \<Rightarrow> real"
  fl_sqrt :: "real \<Rightarrow> real"
  fl_arctan :: "real \<Rightarrow> real"
  fl_sin :: "real \<Rightarrow> real"
  fl_cos :: "real \<Rightarrow> real"
  fl_pi :: real

text \<open>
  \<open>fl_int\<close> converts an integer to a double (\<open>float(i)\<close>, and the conversion of an
  integer operand of a mixed operation); \<open>fl_add\<close>, \<open>fl_sub\<close>, \<open>fl_mul\<close>, \<open>fl_div\<close> are
  \<open>+\<close>, \<open>-\<close>, \<open>*\<close>, \<open>/\<close> on doubles; \<open>fl_truediv\<close> is \<open>/\<close> on two Python integers;
  \<open>fl_sqrt\<close> is \<open>math.sqrt\<close>; \<open>fl_arctan\<close>, \<open>fl_sin\<close>, \<open>fl_cos\<close> are \<open>np.arctan\<close>,
  \<open>np.sin\<close>, \<open>np.cos\<close>; \<open>fl_pi\<close> is \<open>np.pi\<close>.
\<close>

definition exact_float :: float_ops where
  \<comment> \<open>Arithmetic without rounding.\<close>
  "exact_float =
     \<lparr>fl_int = real_of_int, fl_add = (+), fl_sub = (-), fl_mul = (*), fl_div = (/),
      fl_truediv = (\<lambda>n m. real_of_int n / real_of_int m),
      fl_sqrt = sqrt, fl_arctan = arctan, fl_sin = sin, fl_cos = cos, fl_pi = pi\<rparr>"

definition accurate :: "float_ops \<Rightarrow> real \<Rightarrow> bool" where
  \<comment> \<open>What is taken for granted of the arithmetic: every operation has a relative error of
      at most \<open>u\<close> (an absolute one for \<open>sin\<close> and \<open>cos\<close>), and the conversion, the sum,
      the difference and the product are exact when their value is an integer of magnitude
      at most \<open>2^53\<close>. IEEE doubles have \<open>u = 2^-53\<close> for the correctly rounded operations.\<close>
  "accurate fp u =
     (0 \<le> u \<and> u \<le> 1 / 100
      \<and> (\<forall>n. \<bar>fl_int fp n - real_of_int n\<bar> \<le> u * \<bar>real_of_int n\<bar>)
      \<and> (\<forall>n. \<bar>n\<bar> \<le> 2 ^ 53 \<longrightarrow> fl_int fp n = real_of_int n)
      \<and> (\<forall>a b. \<bar>fl_add fp a b - (a + b)\<bar> \<le> u * \<bar>a + b\<bar>)
      \<and> (\<forall>a b n. a + b = real_of_int n \<and> \<bar>n\<bar> \<le> 2 ^ 53 \<longrightarrow> fl_add fp a b = a + b)
      \<and> (\<forall>a b. \<bar>fl_sub fp a b - (a - b)\<bar> \<le> u * \<bar>a - b\<bar>)
      \<and> (\<forall>a b n. a - b = real_of_int n \<and> \<bar>n\<bar> \<le> 2 ^ 53 \<longrightarrow> fl_sub fp a b = a - b)
      \<and> (\<forall>a b. \<bar>fl_mul fp a b - a * b\<bar> \<le> u * \<bar>a * b\<bar>)
      \<and> (\<forall>a b n. a * b = real_of_int n \<and> \<bar>n\<bar> \<le> 2 ^ 53 \<longrightarrow> fl_mul fp a b = a * b)
      \<and> (\<forall>a b. b \<noteq> 0 \<longrightarrow> \<bar>fl_div fp a b - a / b\<bar> \<le> u * \<bar>a / b\<bar>)
      \<and> (\<forall>n m. m \<noteq> 0 \<longrightarrow>
            \<bar>fl_truediv fp n m - real_of_int n / real_of_int m\<bar>
              \<le> u * \<bar>real_of_int n / real_of_int m\<bar>)
      \<and> (\<forall>a. 0 \<le> a \<longrightarrow> \<bar>fl_sqrt fp a - sqrt a\<bar> \<le> u * sqrt a)
      \<and> (\<forall>a. \<bar>fl_arctan fp a - arctan a\<bar> \<le> u * \<bar>arctan a\<bar>)
      \<and> (\<forall>a. \<bar>fl_sin fp a - sin a\<bar> \<le> u)
      \<and> (\<forall>a. \<bar>fl_cos fp a - cos a\<bar> \<le> u)
      \<and> \<bar>fl_pi fp - pi\<bar> \<le> u * pi)"

definition py_int :: "real \<Rightarrow> int" where
  \<comment> \<open>\<open>int(v)\<close> on a float truncates toward zero.\<close>
  "py_int v = (if 0 \<le> v then \<lfloor>v\<rfloor> else \<lceil>v\<rceil>)"

definition np_sign :: "int \<Rightarrow> int" where
  "np_sign n = (if n < 0 then - 1 else if n = 0 then 0 else 1)"

definition slice_bound :: "nat \<Rightarrow> int \<Rightarrow> nat" where
  \<comment> \<open>One bound of a slice \<open>a[i:j]\<close> over an axis of length \<open>n\<close>: a negative bound counts
      from the end, and the result is clipped to \<open>0..n\<close>.\<close>
  "slice_bound n i = nat (if i < 0 then max (i + int n) 0 else min i (int n))"

definition slice_indices :: "nat \<Rightarrow> int \<Rightarrow> int \<Rightarrow> nat list" where
  \<comment> \<open>The indices selected by \<open>a[start:stop]\<close>; none when the start is not below the stop.\<close>
  "slice_indices n start stop = [slice_bound n start ..< slice_bound n stop]"

record ndarray =
  nrows :: nat
  ncols :: nat
  cell :: "nat \<Rightarrow> nat \<Rightarrow> nat \<Rightarrow> 8 word"

text \<open>
  \<open>ndarray\<close> is the \<open>(rows, cols, channels)\<close> map: its shape and the value at
  \<open>[row, col, channel]\<close>.
\<close>

section \<open>State\<close>

text \<open>
  A \<open>State\<close> object: its coordinates, and references to its parent and its children.
  Objects have identity, and \<open>plan\<close> mutates them in place, so they live in a store: the
  list of all objects created so far. A reference is an index into the store, creating an
  object appends it, and \<open>None\<close> is the Python \<open>None\<close>. States that are only read for
  their coordinates (a random sample, an interpolated point) are used as values.
\<close>

record State =
  x :: int
  y :: int
  parent :: "nat option"
  children :: "nat list"

type_synonym store = "State list"

definition new_State :: "int \<Rightarrow> int \<Rightarrow> nat option \<Rightarrow> State" where
  "new_State a b p = \<lparr>x = a, y = b, parent = p, children = []\<rparr>"

definition State_eq :: "State \<Rightarrow> State \<Rightarrow> bool" where
  \<comment> \<open>\<open>__eq__\<close> (and \<open>__hash__\<close>): by coordinates only.\<close>
  "State_eq s t = (x s = x t \<and> y s = y t)"

definition euclidean_distance :: "float_ops \<Rightarrow> State \<Rightarrow> State \<Rightarrow> real" where
  \<comment> \<open>The sum of squares is an integer; \<open>math.sqrt\<close> converts it to a double.\<close>
  "euclidean_distance fp self s =
     fl_sqrt fp (fl_int fp ((x s - x self)\<^sup>2 + (y s - y self)\<^sup>2))"

section \<open>Steering\<close>

text \<open>
  \<open>max_radius\<close> is a double, as annotated. In the vertical branch \<open>y\<close> is a double, so
  \<open>height - y\<close> is computed on doubles; in the other branch \<open>y\<close> is an integer and
  \<open>int(height - y)\<close> is \<open>height - y\<close>. A caller that passes an integer for
  \<open>max_radius\<close> makes numpy compute the vertical branch on 64-bit integers; as long as
  these do not overflow, that is the exact result, which is also what accurate doubles
  give for operands of moderate size (lemma \<open>steer_vertical_integer\<close>).
\<close>

definition steer_algorithm :: "float_ops \<Rightarrow> State \<Rightarrow> State \<Rightarrow> int \<Rightarrow> real \<Rightarrow> int \<times> int" where
  "steer_algorithm fp s1 s2 height max_radius =
    (let y1 = height - y s1; y2 = height - y s2;
         real_dy = y s2 - y s1;
         dx = x s2 - x s1; dy = y2 - y1
     in if dx = 0 then
          (let yv = fl_add fp (fl_int fp y1)
                      (fl_mul fp (fl_int fp (- np_sign real_dy)) max_radius)
           in (x s1, py_int (fl_sub fp (fl_int fp height) yv)))
        else
          (let theta = fl_arctan fp (fl_truediv fp dy dx);
               theta = (if dx < 0 then
                          (let dx_flip = - dx;
                               theta = fl_arctan fp (fl_truediv fp dy dx_flip)
                           in if dy < 0 then fl_sub fp (- fl_pi fp) theta
                              else fl_sub fp (fl_pi fp) theta)
                        else theta);
               dy2 = fl_mul fp (fl_sin fp theta) max_radius;
               dx2 = fl_mul fp (fl_cos fp theta) max_radius;
               xn = py_int (fl_add fp (fl_int fp (x s1)) dx2);
               yn = py_int (fl_add fp (fl_int fp y1) dy2)
           in (xn, height - yn)))"

section \<open>RRTPlanner\<close>

record RRTPlanner =
  world :: ndarray
  occ_grid :: "nat \<Rightarrow> nat \<Rightarrow> 8 word"

definition RRTPlanner_init :: "ndarray \<Rightarrow> RRTPlanner" where
  \<comment> \<open>\<open>occ_grid\<close> has the shape of the first two axes of \<open>world\<close>; a cell is 1 iff
      channel 0 of the map is 0 there.\<close>
  "RRTPlanner_init w =
     \<lparr>world = w, occ_grid = (\<lambda>r c. if cell w r c 0 = 0 then 1 else 0)\<rparr>"

definition state_is_free :: "RRTPlanner \<Rightarrow> State \<Rightarrow> bool" where
  "state_is_free self s =
     list_all (\<lambda>r. list_all (\<lambda>c. occ_grid self r c = 0)
                 (slice_indices (ncols (world self)) (x s - 5) (x s + 5)))
       (slice_indices (nrows (world self)) (y s - 5) (y s + 5))"

definition randint :: "(nat \<Rightarrow> nat) \<Rightarrow> nat \<Rightarrow> int \<Rightarrow> int \<Rightarrow> error + int" where
  \<comment> \<open>\<open>np.random.randint(low, high)\<close>: the generator is a stream \<open>gen\<close> of raw draws, of
      which draw number \<open>k\<close> is reduced into \<open>low..high-1\<close>; numpy raises \<open>ValueError\<close>
      on an empty range.\<close>
  "randint gen k low high =
     (if high \<le> low then Inl ValueError
      else Inr (low + int (gen k mod nat (high - low))))"

definition sample_state :: "RRTPlanner \<Rightarrow> (nat \<Rightarrow> nat) \<Rightarrow> nat \<Rightarrow> error + State \<times> nat" where
  \<comment> \<open>Returns the sample and the position of the generator after its two draws.\<close>
  "sample_state self gen k =
     (case randint gen k 0 (int (ncols (world self))) of
        Inl e \<Rightarrow> Inl e
      | Inr a \<Rightarrow>
          (case randint gen (k + 1) 0 (int (nrows (world self))) of
             Inl e \<Rightarrow> Inl e
           | Inr b \<Rightarrow> Inr (new_State a b None, k + 2)))"

partial_function (option) follow_loop :: "store \<Rightarrow> nat option \<Rightarrow> nat list \<Rightarrow> nat list option" where
  "follow_loop h curr_ptr path =
     (case curr_ptr of
        None \<Rightarrow> Some path
      | Some a \<Rightarrow> follow_loop h (parent (h ! a)) (path @ [a]))"

definition follow_parent_pointers :: "store \<Rightarrow> nat \<Rightarrow> nat list option" where
  \<comment> \<open>\<open>_follow_parent_pointers\<close>; \<open>None\<close> when the loop never ends.\<close>
  "follow_parent_pointers h state = map_option rev (follow_loop h (Some state) [state])"

fun find_closest_loop ::
  "float_ops \<Rightarrow> store \<Rightarrow> State \<Rightarrow> nat list \<Rightarrow> real option \<Rightarrow> nat option \<Rightarrow> nat option" where
  "find_closest_loop fp h s [] min_dist closest_state = closest_state"
| "find_closest_loop fp h s (node # nodes) min_dist closest_state =
     (let dist = euclidean_distance fp (h ! node) s
      in if (case min_dist of None \<Rightarrow> True | Some m \<Rightarrow> dist < m)
         then find_closest_loop fp h s nodes (Some dist) (Some node)
         else find_closest_loop fp h s nodes min_dist closest_state)"

definition find_closest_state :: "float_ops \<Rightarrow> store \<Rightarrow> nat list \<Rightarrow> State \<Rightarrow> nat option" where
  \<comment> \<open>\<open>min_dist\<close> starts at \<open>float("Inf")\<close>, written \<open>None\<close>.\<close>
  "find_closest_state fp h tree_nodes s = find_closest_loop fp h s tree_nodes None None"

definition steer_towards ::
  "float_ops \<Rightarrow> RRTPlanner \<Rightarrow> store \<Rightarrow> nat \<Rightarrow> State \<Rightarrow> real \<Rightarrow> State" where
  "steer_towards fp self h s_nearest s_rand max_radius =
     (let (a, b) =
        (if euclidean_distance fp s_rand (h ! s_nearest) \<le> max_radius then (x s_rand, y s_rand)
         else steer_algorithm fp (h ! s_nearest) s_rand (int (nrows (world self))) max_radius)
      in new_State a b (Some s_nearest))"

fun path_checks :: "float_ops \<Rightarrow> RRTPlanner \<Rightarrow> store \<Rightarrow> nat \<Rightarrow> nat \<Rightarrow> nat list \<Rightarrow> bool" where
  "path_checks fp self h s_from s_to [] = True"
| "path_checks fp self h s_from s_to (i # is) =
     (let distance = fl_mul fp (fl_div fp (fl_int fp (int i)) (fl_int fp 10))
                       (euclidean_distance fp (h ! s_from) (h ! s_to));
          (a, b) = steer_algorithm fp (h ! s_from) (h ! s_to) (int (nrows (world self))) distance
      in if \<not> state_is_free self (new_State a b (Some s_from)) then False
         else path_checks fp self h s_from s_to is)"

definition path_is_obstacle_free ::
  "float_ops \<Rightarrow> RRTPlanner \<Rightarrow> store \<Rightarrow> nat \<Rightarrow> nat \<Rightarrow> error + bool" where
  "path_is_obstacle_free fp self h s_from s_to =
     (if \<not> state_is_free self (h ! s_from) then Inl AssertionError
      else if \<not> state_is_free self (h ! s_to) then Inr False
      else Inr (path_checks fp self h s_from s_to [0..<10]))"

section \<open>plan\<close>

definition set_add :: "store \<Rightarrow> nat list \<Rightarrow> nat \<Rightarrow> nat list" where
  \<comment> \<open>\<open>tree_nodes.add(s)\<close>: the set keeps its members in insertion order here; a state
      equal (by coordinates) to a member is not added.\<close>
  "set_add h nodes s = (if list_ex (\<lambda>n. State_eq (h ! n) (h ! s)) nodes then nodes else nodes @ [s])"

record plan_state =
  objs :: store
  tree_nodes :: "nat list"
  rng :: nat
  plan_var :: "nat list"

text \<open>
  The variables of a run of \<open>plan\<close>: the store, the set \<open>tree_nodes\<close>, the number of raw
  draws taken from the random generator, and the local variable \<open>plan\<close>. The image and
  the calls that draw it have no part in the result and are left out.

  \<open>list(tree_nodes)\<close> enumerates the set in an order that depends on the hashes; it is the
  parameter \<open>order\<close>, applied to the members in insertion order.
\<close>

definition plan_iteration ::
  "float_ops \<Rightarrow> RRTPlanner \<Rightarrow> (nat \<Rightarrow> nat) \<Rightarrow> (nat list \<Rightarrow> nat list) \<Rightarrow> nat \<Rightarrow> real \<Rightarrow> real \<Rightarrow> plan_state
     \<Rightarrow> (error + plan_state \<times> bool) option" where
  \<comment> \<open>One pass through the body of the loop; the flag tells whether it ended in \<open>break\<close>.
      \<open>None\<close>: the pass never ends. With no closest state, the \<open>assert\<close> of
      \<open>euclidean_distance\<close> fails in \<open>steer_towards\<close>.\<close>
  "plan_iteration fp self gen order dest_state max_steering_radius dest_reached_radius st =
     (case sample_state self gen (rng st) of
        Inl e \<Rightarrow> Some (Inl e)
      | Inr (s_rand, k) \<Rightarrow>
          (case find_closest_state fp (objs st) (order (tree_nodes st)) s_rand of
             None \<Rightarrow> Some (Inl AssertionError)
           | Some s_nearest \<Rightarrow>
               (let s_new = length (objs st);
                    h1 = objs st @ [steer_towards fp self (objs st) s_nearest s_rand max_steering_radius]
                in case path_is_obstacle_free fp self h1 s_nearest s_new of
                     Inl e \<Rightarrow> Some (Inl e)
                   | Inr False \<Rightarrow> Some (Inr (st\<lparr>objs := h1, rng := k\<rparr>, False))
                   | Inr True \<Rightarrow>
                       (let nodes = set_add h1 (tree_nodes st) s_new;
                            h2 = h1[s_nearest := (h1 ! s_nearest)
                                   \<lparr>children := children (h1 ! s_nearest) @ [s_new]\<rparr>]
                        in if euclidean_distance fp (h2 ! s_new) (h2 ! dest_state) < dest_reached_radius
                           then
                             (let h3 = h2[dest_state := (h2 ! dest_state)\<lparr>parent := Some s_new\<rparr>]
                              in case follow_parent_pointers h3 dest_state of
                                   None \<Rightarrow> None
                                 | Some p \<Rightarrow>
                                     Some (Inr (\<lparr>objs = h3, tree_nodes = nodes, rng = k,
                                                 plan_var = p\<rparr>, True)))
                           else Some (Inr (st\<lparr>objs := h2, tree_nodes := nodes, rng := k\<rparr>,
                                           False))))))"

fun plan_loop ::
  "float_ops \<Rightarrow> RRTPlanner \<Rightarrow> (nat \<Rightarrow> nat) \<Rightarrow> (nat list \<Rightarrow> nat list) \<Rightarrow> nat \<Rightarrow> real \<Rightarrow> real \<Rightarrow> nat \<Rightarrow> plan_state
     \<Rightarrow> (error + plan_state \<times> bool) option" where
  "plan_loop fp self gen order dest_state r_steer r_dest 0 st = Some (Inr (st, False))"
| "plan_loop fp self gen order dest_state r_steer r_dest (Suc n) st =
     (case plan_iteration fp self gen order dest_state r_steer r_dest st of
        None \<Rightarrow> None
      | Some (Inl e) \<Rightarrow> Some (Inl e)
      | Some (Inr (st', brk)) \<Rightarrow>
          if brk then Some (Inr (st', True))
          else plan_loop fp self gen order dest_state r_steer r_dest n st')"

record plan_result =
  final :: plan_state
  reached :: bool
  returned :: "nat list"

text \<open>
  What a run of \<open>plan\<close> leaves: the final variables (\<open>plan_var\<close> is the plan handed to
  \<open>draw_plan\<close>), whether the loop ended in \<open>break\<close>, and the list returned.
\<close>

definition plan ::
  "float_ops \<Rightarrow> RRTPlanner \<Rightarrow> (nat \<Rightarrow> nat) \<Rightarrow> (nat list \<Rightarrow> nat list) \<Rightarrow> store \<Rightarrow> nat \<Rightarrow> nat \<Rightarrow> nat \<Rightarrow> real \<Rightarrow> real
     \<Rightarrow> (error + plan_result) option" where
  "plan fp self gen order h start_state dest_state max_num_steps max_steering_radius
       dest_reached_radius =
     (if \<not> state_is_free self (h ! start_state) then Some (Inl AssertionError)
      else if \<not> state_is_free self (h ! dest_state) then Some (Inl AssertionError)
      else
        (case plan_loop fp self gen order dest_state max_steering_radius dest_reached_radius
                max_num_steps
                \<lparr>objs = h, tree_nodes = [start_state], rng = 0, plan_var = [start_state]\<rparr> of
           None \<Rightarrow> None
         | Some (Inl e) \<Rightarrow> Some (Inl e)
         | Some (Inr (st, brk)) \<Rightarrow>
             Some (Inr \<lparr>final = st, reached = brk, returned = [start_state]\<rparr>)))"

section \<open>The ray and the segment as the specification words them\<close>

definition straight_distance :: "State \<Rightarrow> State \<Rightarrow> real" where
  \<comment> \<open>The distance between two positions, as a real number.\<close>
  "straight_distance s t = sqrt (real_of_int ((x t - x s)\<^sup>2 + (y t - y s)\<^sup>2))"

definition ray_point :: "State \<Rightarrow> State \<Rightarrow> real \<Rightarrow> real \<times> real" where
  \<comment> \<open>The point on the ray from \<open>s\<close> through \<open>t\<close> at the distance \<open>r\<close> from \<open>s\<close>.\<close>
  "ray_point s t r =
     (real_of_int (x s) + r * real_of_int (x t - x s) / straight_distance s t,
      real_of_int (y s) + r * real_of_int (y t - y s) / straight_distance s t)"

definition segment_point :: "State \<Rightarrow> State \<Rightarrow> nat \<Rightarrow> real \<times> real" where
  \<comment> \<open>The point at the fraction \<open>i/10\<close> of the way from \<open>s\<close> to \<open>t\<close>.\<close>
  "segment_point s t i =
     (real_of_int (x s) + real i / 10 * real_of_int (x t - x s),
      real_of_int (y s) + real i / 10 * real_of_int (y t - y s))"

definition sample_distance :: "float_ops \<Rightarrow> State \<Rightarrow> State \<Rightarrow> nat \<Rightarrow> real" where
  \<comment> \<open>The double \<open>float(i) / max_checks * s_from.euclidean_distance(s_to)\<close>.\<close>
  "sample_distance fp s t i =
     fl_mul fp (fl_div fp (fl_int fp (int i)) (fl_int fp 10)) (euclidean_distance fp s t)"

definition segment_sample :: "float_ops \<Rightarrow> RRTPlanner \<Rightarrow> State \<Rightarrow> State \<Rightarrow> nat \<Rightarrow> State" where
  \<comment> \<open>The point interpolated by the steering function at the fraction \<open>i/10\<close> of the
      straight-line distance.\<close>
  "segment_sample fp self s_from s_to i =
     (let (a, b) = steer_algorithm fp s_from s_to (int (nrows (world self)))
                     (sample_distance fp s_from s_to i)
      in new_State a b None)"

definition isSegmentFree :: "float_ops \<Rightarrow> RRTPlanner \<Rightarrow> State \<Rightarrow> State \<Rightarrow> bool" where
  \<comment> \<open>False if \<open>to\<close> is not free; otherwise true only if each of the 10 samples at the
      fractions 0/10, ..., 9/10 is free.\<close>
  "isSegmentFree fp self s_from s_to =
     (if \<not> state_is_free self s_to then False
      else list_all (\<lambda>i. state_is_free self (segment_sample fp self s_from s_to i)) [0..<10])"

text \<open>
  The rounding of the doubles adds to the truncation. \<open>steer_error u s1 s2 height r\<close> bounds
  what the arithmetic of \<open>steer_algorithm\<close> adds when every operation is accurate to \<open>u\<close>,
  and \<open>sample_error\<close> what it adds to a sample of the segment check; both are \<open>u\<close> times a
  polynomial in the coordinates, the height of the map and the radius. \<open>steer_angle\<close> is
  the double \<open>theta\<close> of \<open>steer_algorithm\<close>.
\<close>

definition steer_error :: "real \<Rightarrow> State \<Rightarrow> State \<Rightarrow> int \<Rightarrow> real \<Rightarrow> real" where
  "steer_error u s1 s2 height r =
     u * (3 * \<bar>real_of_int height\<bar>
          + 7 * (\<bar>real_of_int (x s1)\<bar> + \<bar>real_of_int (height - y s1)\<bar>)
          + \<bar>r\<bar> * (8 * \<bar>real_of_int (y s2 - y s1)\<bar> + 79))"

definition sample_error :: "real \<Rightarrow> State \<Rightarrow> State \<Rightarrow> int \<Rightarrow> real" where
  "sample_error u s t height =
     u * (3 * \<bar>real_of_int height\<bar>
          + 7 * (\<bar>real_of_int (x s)\<bar> + \<bar>real_of_int (height - y s)\<bar>)
          + straight_distance s t * (128 * \<bar>real_of_int (y t - y s)\<bar> + 1279))"

definition steer_angle :: "float_ops \<Rightarrow> int \<Rightarrow> int \<Rightarrow> real" where
  "steer_angle fp dx dy =
     (if dx < 0 then
        (if dy < 0 then fl_sub fp (- fl_pi fp) (fl_arctan fp (fl_truediv fp dy (- dx)))
         else fl_sub fp (fl_pi fp) (fl_arctan fp (fl_truediv fp dy (- dx))))
      else fl_arctan fp (fl_truediv fp dy dx))"

section \<open>The tree invariant\<close>

text \<open>
  \<open>parents_earlier h seen ns\<close>: each node of \<open>ns\<close> has a parent, and the parent is in
  \<open>seen\<close> or stands before it in \<open>ns\<close>. \<open>tree_invariant h start nodes\<close>: the members, in
  insertion order, begin with the root \<open>start\<close>, which has no parent, are distinct objects
  of the store, and every other member has its parent among the members inserted before
  it. \<open>parent_chain h a ps\<close>: \<open>ps\<close> are the ancestors of \<open>a\<close>, from its parent up to a
  state without a parent; a state on a cycle of parent pointers has no such chain.
\<close>

fun parents_earlier :: "store \<Rightarrow> nat list \<Rightarrow> nat list \<Rightarrow> bool" where
  "parents_earlier h seen [] = True"
| "parents_earlier h seen (n # ns) =
     ((case parent (h ! n) of None \<Rightarrow> False | Some p \<Rightarrow> p \<in> set seen)
      \<and> parents_earlier h (seen @ [n]) ns)"

definition tree_invariant :: "store \<Rightarrow> nat \<Rightarrow> nat list \<Rightarrow> bool" where
  "tree_invariant h start nodes =
     (case nodes of
        [] \<Rightarrow> False
      | r # rest \<Rightarrow> r = start \<and> parent (h ! start) = None \<and> distinct nodes
                   \<and> list_all (\<lambda>n. n < length h) nodes \<and> parents_earlier h [start] rest)"

fun parent_chain :: "store \<Rightarrow> nat \<Rightarrow> nat list \<Rightarrow> bool" where
  "parent_chain h a [] = (parent (h ! a) = None)"
| "parent_chain h a (p # ps) = (parent (h ! a) = Some p \<and> parent_chain h p ps)"

definition run_inv :: "nat \<Rightarrow> nat \<Rightarrow> plan_state \<Rightarrow> bool" where
  \<comment> \<open>What holds of the variables of a run whose start has no parent and whose goal is
      another object: the goal is an object of the store and no member, and the tree
      invariant.\<close>
  "run_inv start dest st =
     (dest < length (objs st) \<and> tree_invariant (objs st) start (tree_nodes st)
      \<and> dest \<notin> set (tree_nodes st))"

definition plan_ready :: "RRTPlanner \<Rightarrow> nat \<Rightarrow> nat \<Rightarrow> plan_state \<Rightarrow> bool" where
  \<comment> \<open>What makes a run of \<open>plan\<close> go through, kept by every iteration: the invariant
      above, a map with at least one row and one column, and members that are all free.\<close>
  "plan_ready self start dest st =
     (run_inv start dest st \<and> 0 < nrows (world self) \<and> 0 < ncols (world self)
      \<and> list_all (\<lambda>n. state_is_free self (objs st ! n)) (tree_nodes st))"

section \<open>Concrete inputs\<close>

definition black_world :: ndarray where
  \<comment> \<open>11 by 11, every cell occupied.\<close>
  "black_world = \<lparr>nrows = 11, ncols = 11, cell = (\<lambda>r c ch. 0)\<rparr>"

definition dot_world :: ndarray where
  \<comment> \<open>11 by 11, free but for the cell at row 2, column 2.\<close>
  "dot_world = \<lparr>nrows = 11, ncols = 11, cell = (\<lambda>r c ch. if r = 2 \<and> c = 2 then 0 else 255)\<rparr>"

definition free_world :: ndarray where
  \<comment> \<open>100 by 100, every cell free.\<close>
  "free_world = \<lparr>nrows = 100, ncols = 100, cell = (\<lambda>r c ch. 255)\<rparr>"

definition rounded_sin :: float_ops where
  \<comment> \<open>Arithmetic that is exact but for \<open>sin\<close>, whose results are too large in magnitude
      by the factor \<open>1 + 2^-52\<close>.\<close>
  "rounded_sin = exact_float\<lparr>fl_sin := (\<lambda>a. sin a * (1 + 1 / 2 ^ 52))\<rparr>"

definition gen_to :: "nat \<Rightarrow> nat \<Rightarrow> nat \<Rightarrow> nat" where
  \<comment> \<open>A generator whose first draw is \<open>a\<close> and whose later draws are \<open>b\<close>.\<close>
  "gen_to a b k = (if k = 0 then a else b)"

definition two_states :: store where
  \<comment> \<open>A start at (50, 50) and a goal at (50, 60).\<close>
  "two_states = [new_State 50 50 None, new_State 50 60 None]"

definition same_states :: store where
  \<comment> \<open>A start and a goal that are two objects at the same place, (50, 50).\<close>
  "same_states = [new_State 50 50 None, new_State 50 50 None]"

definition reached_state :: plan_state where
  \<comment> \<open>The variables after the run from \<open>two_states\<close> whose sample is (50, 58).\<close>
  "reached_state = \<lparr>objs = [\<lparr>x = 50, y = 50, parent = None, children = [2]\<rparr>,
                             \<lparr>x = 50, y = 60, parent = Some 2, children = []\<rparr>,
                             \<lparr>x = 50, y = 58, parent = Some 0, children = []\<rparr>],
                     tree_nodes = [0, 2], rng = 2, plan_var = [0, 2, 1, 1]\<rparr>"

definition exhausted_state :: plan_state where
  \<comment> \<open>The variables after the run from \<open>two_states\<close> whose sample is (50, 90).\<close>
  "exhausted_state = \<lparr>objs = [\<lparr>x = 50, y = 50, parent = None, children = [2]\<rparr>,
                               \<lparr>x = 50, y = 60, parent = None, children = []\<rparr>,
                               \<lparr>x = 50, y = 80, parent = Some 0, children = []\<rparr>],
                       tree_nodes = [0, 2], rng = 2, plan_var = [0]\<rparr>"

definition same_state :: plan_state where
  \<comment> \<open>The variables after the run from \<open>same_states\<close> whose sample is (50, 90).\<close>
  "same_state = \<lparr>objs = [\<lparr>x = 50, y = 50, parent = None, children = [2]\<rparr>,
                          \<lparr>x = 50, y = 50, parent = None, children = []\<rparr>,
                          \<lparr>x = 50, y = 80, parent = Some 0, children = []\<rparr>],
                  tree_nodes = [0, 2], rng = 2, plan_var = [0]\<rparr>"

definition duplicate_state :: plan_state where
  \<comment> \<open>The variables after the run from \<open>two_states\<close> whose sample is (50, 50).\<close>
  "duplicate_state = \<lparr>objs = [\<lparr>x = 50, y = 50, parent = None, children = [2]\<rparr>,
                               \<lparr>x = 50, y = 60, parent = None, children = []\<rparr>,
                               \<lparr>x = 50, y = 50, parent = Some 0, children = []\<rparr>],
                      tree_nodes = [0], rng = 2, plan_var = [0]\<rparr>"

section \<open>Collision detection\<close>

lemma slice_indices_wrapped_empty:
  assumes "10 \<le> n" and "- 5 \<le> i" and "i < 5"
  shows "slice_indices n (i - 5) (i + 5) = []"
  using assms by (simp add: slice_indices_def slice_bound_def)

lemma slice_indices_set:
  assumes "0 \<le> i" and "0 \<le> j"
  shows "set (slice_indices n i j) = {k. i \<le> int k \<and> int k < j \<and> k < n}"
  using assms by (auto simp: slice_indices_def slice_bound_def)

text \<open>
  Away from the top and left borders the test is the one intended: the window is rows
  \<open>y - 5 .. y + 4\<close> and columns \<open>x - 5 .. x + 4\<close>, clipped at the bottom and right edges
  of the grid.
\<close>

lemma state_is_free_iff:
  assumes "5 \<le> x s" and "5 \<le> y s"
  shows "state_is_free self s \<longleftrightarrow>
    (\<forall>r c. y s - 5 \<le> int r \<and> int r < y s + 5 \<and> r < nrows (world self)
         \<and> x s - 5 \<le> int c \<and> int c < x s + 5 \<and> c < ncols (world self)
       \<longrightarrow> occ_grid self r c = 0)"
  using assms by (auto simp: state_is_free_def list_all_iff slice_indices_set)

lemma state_is_free_coordinates:
  assumes "x s = x t" and "y s = y t"
  shows "state_is_free self s = state_is_free self t"
  using assms by (simp add: state_is_free_def)

text \<open>
  C9. On a grid with more than 10 rows and columns, a state with a coordinate below 5
  is reported free whatever the grid holds: the slice start \<open>coordinate - 5\<close> is
  negative, counts from the far end, and selects nothing. The coordinates of a state lie
  in the grid, so the coordinate is taken from -5 upward, which covers every
  coordinate 0..4.
\<close>

theorem state_is_free_near_border:
  assumes "10 < nrows (world self)" and "10 < ncols (world self)"
    and "(- 5 \<le> x s \<and> x s < 5) \<or> (- 5 \<le> y s \<and> y s < 5)"
  shows "state_is_free self s"
  using assms
  by (auto simp: state_is_free_def slice_indices_wrapped_empty list_all_iff)

theorem state_is_free_near_border_witness:
  "10 < nrows (world (RRTPlanner_init black_world))
   \<and> 10 < ncols (world (RRTPlanner_init black_world))
   \<and> x (new_State 2 7 None) < 5
   \<and> occ_grid (RRTPlanner_init black_world) 7 2 = 1
   \<and> state_is_free (RRTPlanner_init black_world) (new_State 2 7 None)"
  using state_is_free_near_border [of "RRTPlanner_init black_world" "new_State 2 7 None"]
  by (simp add: RRTPlanner_init_def black_world_def new_State_def)

text \<open>
  C4. The docstring of \<open>state_is_free\<close> promises "true iff the state and its nearby
  surroundings are free". The state at column 2, row 2 of \<open>dot_world\<close> sits on the one
  occupied cell of the grid, and is reported free.
\<close>

theorem state_is_free_occupied_point:
  "occ_grid (RRTPlanner_init dot_world) 2 2 = 1
   \<and> state_is_free (RRTPlanner_init dot_world) (new_State 2 2 None)"
  by (simp add: state_is_free_def RRTPlanner_init_def dot_world_def new_State_def
        slice_indices_def slice_bound_def)

section \<open>The arithmetic on doubles\<close>

lemma exact_float_simps [simp]:
  "fl_int exact_float = real_of_int" "fl_add exact_float = (+)" "fl_sub exact_float = (-)"
  "fl_mul exact_float = (*)" "fl_div exact_float = (/)"
  "fl_truediv exact_float = (\<lambda>n m. real_of_int n / real_of_int m)"
  "fl_sqrt exact_float = sqrt" "fl_arctan exact_float = arctan" "fl_sin exact_float = sin"
  "fl_cos exact_float = cos" "fl_pi exact_float = pi"
  by (simp_all add: exact_float_def)

lemma accurate_exact_float: "accurate exact_float 0"
  by (simp add: accurate_def)

lemma accurate_small:
  assumes "accurate fp u"
  shows "u \<le> 1 / 100" and "u \<le> 1"
  using assms unfolding accurate_def by simp_all

lemma accurateD:
  assumes "accurate fp u"
  shows "0 \<le> u"
    and "\<bar>fl_int fp n - real_of_int n\<bar> \<le> u * \<bar>real_of_int n\<bar>"
    and "\<bar>n\<bar> \<le> 2 ^ 53 \<Longrightarrow> fl_int fp n = real_of_int n"
    and "\<bar>fl_add fp a b - (a + b)\<bar> \<le> u * \<bar>a + b\<bar>"
    and "a + b = real_of_int n \<Longrightarrow> \<bar>n\<bar> \<le> 2 ^ 53 \<Longrightarrow> fl_add fp a b = a + b"
    and "\<bar>fl_sub fp a b - (a - b)\<bar> \<le> u * \<bar>a - b\<bar>"
    and "a - b = real_of_int n \<Longrightarrow> \<bar>n\<bar> \<le> 2 ^ 53 \<Longrightarrow> fl_sub fp a b = a - b"
    and "\<bar>fl_mul fp a b - a * b\<bar> \<le> u * \<bar>a * b\<bar>"
    and "a * b = real_of_int n \<Longrightarrow> \<bar>n\<bar> \<le> 2 ^ 53 \<Longrightarrow> fl_mul fp a b = a * b"
    and "b \<noteq> 0 \<Longrightarrow> \<bar>fl_div fp a b - a / b\<bar> \<le> u * \<bar>a / b\<bar>"
    and "m \<noteq> 0 \<Longrightarrow> \<bar>fl_truediv fp k m - real_of_int k / real_of_int m\<bar>
              \<le> u * \<bar>real_of_int k / real_of_int m\<bar>"
    and "0 \<le> a \<Longrightarrow> \<bar>fl_sqrt fp a - sqrt a\<bar> \<le> u * sqrt a"
    and "\<bar>fl_arctan fp a - arctan a\<bar> \<le> u * \<bar>arctan a\<bar>"
    and "\<bar>fl_sin fp a - sin a\<bar> \<le> u"
    and "\<bar>fl_cos fp a - cos a\<bar> \<le> u"
    and "\<bar>fl_pi fp - pi\<bar> \<le> u * pi"
  using assms unfolding accurate_def by simp_all

lemma py_int_close: "\<bar>real_of_int (py_int v) - v\<bar> < 1"
  by (simp add: py_int_def) linarith

lemma py_int_of_int: "py_int (real_of_int k) = k"
  by (simp add: py_int_def)

lemma arctan_lipschitz: "\<bar>arctan a - arctan b\<bar> \<le> \<bar>a - b\<bar>"
proof -
  have mono: "c - arctan c \<le> d - arctan d" if "c \<le> d" for c d :: real
  proof (rule DERIV_nonneg_imp_nondecreasing [OF that])
    fix v :: real
    have "((\<lambda>v. v - arctan v) has_real_derivative 1 - inverse (1 + v\<^sup>2)) (at v)"
      by (intro derivative_intros DERIV_arctan)
    moreover have "0 \<le> 1 - inverse (1 + v\<^sup>2)"
      by (simp add: inverse_le_1_iff)
    ultimately show "\<exists>d. ((\<lambda>v. v - arctan v) has_real_derivative d) (at v) \<and> 0 \<le> d"
      by blast
  qed
  show ?thesis
  proof (cases "a \<le> b")
    case True
    with mono [OF True] arctan_monotone' [OF True] show ?thesis by linarith
  next
    case False
    then have le: "b \<le> a" by simp
    with mono [OF le] arctan_monotone' [OF le] show ?thesis by linarith
  qed
qed

lemma sin_lipschitz: "\<bar>sin a - sin b\<bar> \<le> \<bar>a - b\<bar>" for a b :: real
proof -
  have "\<bar>sin a - sin b\<bar> = 2 * \<bar>sin ((a - b) / 2)\<bar> * \<bar>cos ((a + b) / 2)\<bar>"
    by (simp add: sin_diff_sin abs_mult)
  also have "\<dots> \<le> 2 * \<bar>sin ((a - b) / 2)\<bar> * 1"
    by (intro mult_left_mono) simp_all
  also have "\<dots> \<le> 2 * \<bar>(a - b) / 2\<bar>"
    using abs_sin_x_le_abs_x [of "(a - b) / 2"] by simp
  finally show ?thesis by simp
qed

lemma cos_lipschitz: "\<bar>cos a - cos b\<bar> \<le> \<bar>a - b\<bar>" for a b :: real
proof -
  have "\<bar>cos a - cos b\<bar> = 2 * \<bar>sin ((b - a) / 2)\<bar> * \<bar>sin ((a + b) / 2)\<bar>"
    by (simp add: cos_diff_cos abs_mult)
  also have "\<dots> \<le> 2 * \<bar>sin ((b - a) / 2)\<bar> * 1"
    by (intro mult_left_mono) simp_all
  also have "\<dots> \<le> 2 * \<bar>(b - a) / 2\<bar>"
    using abs_sin_x_le_abs_x [of "(b - a) / 2"] by simp
  finally show ?thesis by simp
qed

lemma abs_arctan_less_2: "\<bar>arctan a\<bar> \<le> 2"
  using arctan_bounded [of a] pi_less_4 by (simp add: abs_le_iff)

lemma shrink:
  fixes u e :: real
  assumes "0 \<le> u" and "u \<le> 1" and "0 \<le> e"
  shows "u * e \<le> e"
  using assms by (simp add: mult_left_le_one_le)

lemma approx_add:
  assumes acc: "accurate fp u" and u: "u \<le> 1"
    and a: "\<bar>a' - a\<bar> \<le> u * Ka" and b: "\<bar>b' - b\<bar> \<le> u * Kb"
    and ma: "\<bar>a\<bar> \<le> Ma" and mb: "\<bar>b\<bar> \<le> Mb"
  shows "\<bar>fl_add fp a' b' - (a + b)\<bar> \<le> u * (2 * Ka + 2 * Kb + Ma + Mb)"
proof -
  note u0 = accurateD(1) [OF acc]
  have ea: "0 \<le> u * Ka" and eb: "0 \<le> u * Kb"
    using a b by linarith+
  have "\<bar>a' + b'\<bar> \<le> Ma + Mb + u * Ka + u * Kb"
    using a b ma mb by linarith
  then have "u * \<bar>a' + b'\<bar> \<le> u * (Ma + Mb + u * Ka + u * Kb)"
    using u0 by (rule mult_left_mono)
  also have "\<dots> = u * Ma + u * Mb + u * (u * Ka) + u * (u * Kb)"
    by (simp add: algebra_simps)
  also have "\<dots> \<le> u * Ma + u * Mb + u * Ka + u * Kb"
    using shrink [OF u0 u ea] shrink [OF u0 u eb] by linarith
  finally have "u * \<bar>a' + b'\<bar> \<le> u * Ma + u * Mb + u * Ka + u * Kb" .
  with accurateD(4) [OF acc, of a' b'] a b
  have "\<bar>fl_add fp a' b' - (a + b)\<bar> \<le> 2 * (u * Ka) + 2 * (u * Kb) + u * Ma + u * Mb"
    by linarith
  then show ?thesis
    by (simp add: algebra_simps)
qed

lemma approx_sub:
  assumes acc: "accurate fp u" and u: "u \<le> 1"
    and a: "\<bar>a' - a\<bar> \<le> u * Ka" and b: "\<bar>b' - b\<bar> \<le> u * Kb"
    and ma: "\<bar>a\<bar> \<le> Ma" and mb: "\<bar>b\<bar> \<le> Mb"
  shows "\<bar>fl_sub fp a' b' - (a - b)\<bar> \<le> u * (2 * Ka + 2 * Kb + Ma + Mb)"
proof -
  note u0 = accurateD(1) [OF acc]
  have ea: "0 \<le> u * Ka" and eb: "0 \<le> u * Kb"
    using a b by linarith+
  have "\<bar>a' - b'\<bar> \<le> Ma + Mb + u * Ka + u * Kb"
    using a b ma mb by linarith
  then have "u * \<bar>a' - b'\<bar> \<le> u * (Ma + Mb + u * Ka + u * Kb)"
    using u0 by (rule mult_left_mono)
  also have "\<dots> = u * Ma + u * Mb + u * (u * Ka) + u * (u * Kb)"
    by (simp add: algebra_simps)
  also have "\<dots> \<le> u * Ma + u * Mb + u * Ka + u * Kb"
    using shrink [OF u0 u ea] shrink [OF u0 u eb] by linarith
  finally have "u * \<bar>a' - b'\<bar> \<le> u * Ma + u * Mb + u * Ka + u * Kb" .
  with accurateD(6) [OF acc, of a' b'] a b
  have "\<bar>fl_sub fp a' b' - (a - b)\<bar> \<le> 2 * (u * Ka) + 2 * (u * Kb) + u * Ma + u * Mb"
    by linarith
  then show ?thesis
    by (simp add: algebra_simps)
qed

lemma approx_mul:
  assumes acc: "accurate fp u" and u: "u \<le> 1"
    and a: "\<bar>a' - a\<bar> \<le> u * Ka" and ma: "\<bar>a\<bar> \<le> Ma"
  shows "\<bar>fl_mul fp a' r - a * r\<bar> \<le> u * (\<bar>r\<bar> * (2 * Ka + Ma))"
proof -
  note u0 = accurateD(1) [OF acc]
  have ea: "0 \<le> u * Ka"
    using a by linarith
  have "\<bar>a'\<bar> \<le> Ma + u * Ka"
    using a ma by linarith
  then have "\<bar>a'\<bar> * \<bar>r\<bar> \<le> (Ma + u * Ka) * \<bar>r\<bar>"
    by (rule mult_right_mono) simp
  then have "u * \<bar>a' * r\<bar> \<le> u * ((Ma + u * Ka) * \<bar>r\<bar>)"
    using u0 by (simp add: abs_mult mult_left_mono)
  also have "\<dots> = \<bar>r\<bar> * (u * Ma) + \<bar>r\<bar> * (u * (u * Ka))"
    by (simp add: algebra_simps)
  also have "\<dots> \<le> \<bar>r\<bar> * (u * Ma) + \<bar>r\<bar> * (u * Ka)"
    using shrink [OF u0 u ea] by (simp add: mult_left_mono)
  finally have 1: "u * \<bar>a' * r\<bar> \<le> \<bar>r\<bar> * (u * Ma) + \<bar>r\<bar> * (u * Ka)" .
  have "\<bar>a' * r - a * r\<bar> = \<bar>r\<bar> * \<bar>a' - a\<bar>"
    by (simp add: abs_mult left_diff_distrib [symmetric] mult.commute)
  also have "\<dots> \<le> \<bar>r\<bar> * (u * Ka)"
    using a by (simp add: mult_left_mono)
  finally have 2: "\<bar>a' * r - a * r\<bar> \<le> \<bar>r\<bar> * (u * Ka)" .
  from 1 2 accurateD(8) [OF acc, of a' r]
  have "\<bar>fl_mul fp a' r - a * r\<bar> \<le> 2 * (\<bar>r\<bar> * (u * Ka)) + \<bar>r\<bar> * (u * Ma)"
    by linarith
  then show ?thesis
    by (simp add: algebra_simps)
qed

lemma approx_arctan:
  assumes acc: "accurate fp u" and u: "u \<le> 1" and m: "m \<noteq> 0"
  shows "\<bar>fl_arctan fp (fl_truediv fp k m) - arctan (real_of_int k / real_of_int m)\<bar>
           \<le> u * (\<bar>real_of_int k\<bar> + 2)"
proof -
  note u0 = accurateD(1) [OF acc]
  define q where "q = fl_truediv fp k m"
  define q0 where "q0 = real_of_int k / real_of_int m"
  from m have "1 \<le> \<bar>real_of_int m\<bar>"
    by (metis abs_of_nonneg int_one_le_iff_zero_less of_int_1_le_iff of_int_abs zero_less_abs_iff abs_ge_zero)
  then have "\<bar>real_of_int k\<bar> / \<bar>real_of_int m\<bar> \<le> \<bar>real_of_int k\<bar> / 1"
    by (intro divide_left_mono) simp_all
  then have "\<bar>q0\<bar> \<le> \<bar>real_of_int k\<bar>"
    unfolding q0_def by (simp add: abs_divide)
  then have "u * \<bar>q0\<bar> \<le> u * \<bar>real_of_int k\<bar>"
    using u0 by (rule mult_left_mono)
  with accurateD(11) [OF acc m, of k] have "\<bar>q - q0\<bar> \<le> u * \<bar>real_of_int k\<bar>"
    unfolding q_def q0_def by linarith
  with arctan_lipschitz [of q q0] have 1: "\<bar>arctan q - arctan q0\<bar> \<le> u * \<bar>real_of_int k\<bar>"
    by linarith
  have "u * \<bar>arctan q\<bar> \<le> u * 2"
    using abs_arctan_less_2 u0 by (rule mult_left_mono)
  with accurateD(13) [OF acc, of q] have 2: "\<bar>fl_arctan fp q - arctan q\<bar> \<le> u * 2"
    by linarith
  from 1 2 have "\<bar>fl_arctan fp q - arctan q0\<bar> \<le> u * \<bar>real_of_int k\<bar> + u * 2"
    by linarith
  then show ?thesis
    by (simp add: q_def q0_def algebra_simps)
qed

lemma sqrt_close:
  fixes n n' u :: real
  assumes "0 \<le> n" and "0 \<le> u" and "u \<le> 1" and "\<bar>n' - n\<bar> \<le> u * n"
  shows "\<bar>sqrt n' - sqrt n\<bar> \<le> u * sqrt n"
proof -
  have lo: "n * (1 - u) \<le> n'" and hi: "n' \<le> n * (1 + u)"
    using assms(4) by (simp_all add: algebra_simps abs_le_iff)
  have "sqrt n' \<le> sqrt (n * (1 + u))"
    using hi by simp
  also have "\<dots> = sqrt n * sqrt (1 + u)"
    by (simp add: real_sqrt_mult)
  also have "\<dots> \<le> sqrt n * (1 + u)"
  proof (rule mult_left_mono)
    have "1 + u \<le> (1 + u) ^ 2"
      using assms(2) by (intro self_le_power) simp_all
    with assms(2) show "sqrt (1 + u) \<le> 1 + u"
      by (intro real_le_lsqrt) simp_all
  qed (use assms(1) in simp)
  finally have up: "sqrt n' \<le> sqrt n * (1 + u)" .
  have "sqrt n * (1 - u) \<le> sqrt n * sqrt (1 - u)"
  proof (rule mult_left_mono)
    have "(1 - u) ^ 2 \<le> (1 - u) ^ 1"
      using assms(2,3) by (intro power_decreasing) simp_all
    then show "1 - u \<le> sqrt (1 - u)"
      by (intro real_le_rsqrt) simp
  qed (use assms(1) in simp)
  also have "\<dots> = sqrt (n * (1 - u))"
    by (simp add: real_sqrt_mult)
  also have "\<dots> \<le> sqrt n'"
    using lo by simp
  finally have down: "sqrt n * (1 - u) \<le> sqrt n'" .
  from up down show ?thesis
    by (simp add: algebra_simps abs_le_iff)
qed

lemma straight_distance_nonneg: "0 \<le> straight_distance s t"
  by (simp add: straight_distance_def)

lemma straight_distance_commute: "straight_distance s t = straight_distance t s"
  by (simp add: straight_distance_def power2_commute)

lemma euclidean_distance_close:
  assumes acc: "accurate fp u" and u: "u \<le> 1"
  shows "\<bar>euclidean_distance fp s t - straight_distance s t\<bar> \<le> u * (3 * straight_distance s t)"
proof -
  note u0 = accurateD(1) [OF acc]
  define n where "n = (x t - x s)\<^sup>2 + (y t - y s)\<^sup>2"
  define d where "d = straight_distance s t"
  have n0: "0 \<le> real_of_int n"
    by (simp add: n_def)
  have d: "d = sqrt (real_of_int n)"
    by (simp add: d_def straight_distance_def n_def)
  have d0: "0 \<le> d"
    by (simp add: d_def straight_distance_nonneg)
  have c: "\<bar>fl_int fp n - real_of_int n\<bar> \<le> u * real_of_int n"
    using accurateD(2) [OF acc, of n] n0 by simp
  then have n'0: "0 \<le> fl_int fp n"
    using shrink [OF u0 u n0] by linarith
  have 1: "\<bar>sqrt (fl_int fp n) - d\<bar> \<le> u * d"
    unfolding d using n0 u0 u c by (rule sqrt_close)
  then have "sqrt (fl_int fp n) \<le> d + u * d"
    by linarith
  also have "\<dots> \<le> 2 * d"
    using shrink [OF u0 u d0] by linarith
  finally have "u * sqrt (fl_int fp n) \<le> u * (2 * d)"
    using u0 by (rule mult_left_mono)
  with accurateD(12) [OF acc n'0] have "\<bar>fl_sqrt fp (fl_int fp n) - sqrt (fl_int fp n)\<bar> \<le> u * (2 * d)"
    by linarith
  with 1 have "\<bar>fl_sqrt fp (fl_int fp n) - d\<bar> \<le> u * d + u * (2 * d)"
    by linarith
  then show ?thesis
    by (simp add: euclidean_distance_def n_def d_def algebra_simps)
qed

lemma euclidean_distance_same:
  assumes acc: "accurate fp u" and "x t = x s" and "y t = y s"
  shows "euclidean_distance fp s t = 0"
proof -
  from accurateD(2) [OF acc, of 0] have "fl_int fp 0 = 0"
    by simp
  moreover from accurateD(12) [OF acc, of 0] have "fl_sqrt fp 0 = 0"
    by simp
  ultimately show ?thesis
    using assms(2,3) by (simp add: euclidean_distance_def)
qed

lemma approx_mul2:
  assumes acc: "accurate fp u" and u: "u \<le> 1"
    and a: "\<bar>a' - a\<bar> \<le> u * Ka" and b: "\<bar>b' - b\<bar> \<le> u * Kb"
    and ma: "\<bar>a\<bar> \<le> Ma" and mb: "\<bar>b\<bar> \<le> Mb"
    and k: "0 \<le> Ka" "0 \<le> Kb"
  shows "\<bar>fl_mul fp a' b' - a * b\<bar>
           \<le> u * ((Ma + Ka) * Kb + Mb * Ka + (Ma + Ka) * (Mb + Kb))"
proof -
  note u0 = accurateD(1) [OF acc]
  have ma0: "0 \<le> Ma" and mb0: "0 \<le> Mb"
    using ma mb by linarith+
  have a': "\<bar>a'\<bar> \<le> Ma + Ka"
    using a ma shrink [OF u0 u k(1)] by linarith
  have b': "\<bar>b'\<bar> \<le> Mb + Kb"
    using b mb shrink [OF u0 u k(2)] by linarith
  have "\<bar>a' * b'\<bar> \<le> (Ma + Ka) * (Mb + Kb)"
    unfolding abs_mult using a' b' by (intro mult_mono) simp_all
  then have 1: "u * \<bar>a' * b'\<bar> \<le> u * ((Ma + Ka) * (Mb + Kb))"
    using u0 by (rule mult_left_mono)
  have "a' * b' - a * b = a' * (b' - b) + b * (a' - a)"
    by (simp add: algebra_simps)
  then have "\<bar>a' * b' - a * b\<bar> \<le> \<bar>a'\<bar> * \<bar>b' - b\<bar> + \<bar>b\<bar> * \<bar>a' - a\<bar>"
    by (metis abs_mult abs_triangle_ineq)
  also have "\<dots> \<le> (Ma + Ka) * (u * Kb) + Mb * (u * Ka)"
    using a' b a mb ma0 mb0 k by (intro add_mono mult_mono) simp_all
  finally have 2: "\<bar>a' * b' - a * b\<bar> \<le> u * ((Ma + Ka) * Kb + Mb * Ka)"
    by (simp add: algebra_simps)
  from 1 2 accurateD(8) [OF acc, of a' b']
  have "\<bar>fl_mul fp a' b' - a * b\<bar>
          \<le> u * ((Ma + Ka) * Kb + Mb * Ka) + u * ((Ma + Ka) * (Mb + Kb))"
    by linarith
  then show ?thesis
    by (simp add: algebra_simps)
qed

lemma sample_distance_close:
  assumes acc: "accurate fp u" and u: "u \<le> 1" and i: "i < 10"
  shows "\<bar>sample_distance fp s t i - real i / 10 * straight_distance s t\<bar> \<le> u * (15 * straight_distance s t)"
    and "\<bar>sample_distance fp s t i\<bar> \<le> 16 * straight_distance s t"
proof -
  note u0 = accurateD(1) [OF acc]
  define d where "d = straight_distance s t"
  have d0: "0 \<le> d"
    by (simp add: d_def straight_distance_nonneg)
  have fi: "fl_int fp (int i) = real i"
    using accurateD(3) [OF acc, of "int i"] i by simp
  have ften: "fl_int fp 10 = 10"
    using accurateD(3) [OF acc, of 10] by simp
  have f1: "\<bar>real i / 10\<bar> \<le> 1"
    using i by simp
  then have "u * \<bar>real i / 10\<bar> \<le> u * 1"
    using u0 by (intro mult_left_mono)
  with accurateD(10) [OF acc, of 10 "real i"]
  have f: "\<bar>fl_div fp (real i) 10 - real i / 10\<bar> \<le> u * 1"
    by simp
  have e: "\<bar>euclidean_distance fp s t - d\<bar> \<le> u * (3 * d)"
    unfolding d_def using acc u by (rule euclidean_distance_close)
  have dd: "\<bar>d\<bar> \<le> d"
    using d0 by simp
  have "\<bar>fl_mul fp (fl_div fp (real i) 10) (euclidean_distance fp s t) - real i / 10 * d\<bar>
          \<le> u * ((1 + 1) * (3 * d) + d * 1 + (1 + 1) * (d + 3 * d))"
    using acc u f e f1 dd by (rule approx_mul2) (use d0 in simp_all)
  then have 1: "\<bar>sample_distance fp s t i - real i / 10 * d\<bar> \<le> u * (15 * d)"
    by (simp add: sample_distance_def fi ften)
  then show "\<bar>sample_distance fp s t i - real i / 10 * straight_distance s t\<bar> \<le> u * (15 * straight_distance s t)"
    by (simp add: d_def)
  have "real i / 10 * d \<le> 1 * d"
    using f1 d0 by (intro mult_right_mono) simp_all
  moreover have "0 \<le> real i / 10 * d"
    using d0 by simp
  moreover have "u * (15 * d) \<le> 15 * d"
    using u0 u d0 by (intro shrink) simp_all
  ultimately have "\<bar>sample_distance fp s t i\<bar> \<le> 16 * d"
    using 1 by linarith
  then show "\<bar>sample_distance fp s t i\<bar> \<le> 16 * straight_distance s t"
    by (simp add: d_def)
qed

section \<open>Steering\<close>

lemma sqrt_sum_div:
  fixes a b :: real
  assumes "0 < a"
  shows "sqrt (1 + (b / a)\<^sup>2) = sqrt (a\<^sup>2 + b\<^sup>2) / a"
proof -
  have "1 + (b / a)\<^sup>2 = (a\<^sup>2 + b\<^sup>2) / a\<^sup>2"
    using assms by (simp add: field_simps power2_eq_square)
  then show ?thesis
    using assms by (simp add: real_sqrt_divide)
qed

lemma cos_arctan_div:
  fixes a b :: real
  assumes "0 < a"
  shows "cos (arctan (b / a)) = a / sqrt (a\<^sup>2 + b\<^sup>2)"
  using assms by (simp add: cos_arctan sqrt_sum_div)

lemma sin_arctan_div:
  fixes a b :: real
  assumes "0 < a"
  shows "sin (arctan (b / a)) = b / sqrt (a\<^sup>2 + b\<^sup>2)"
  using assms by (simp add: sin_arctan sqrt_sum_div)

lemma steer_theta:
  fixes dx dy :: real
  assumes "dx \<noteq> 0"
  defines "theta \<equiv> (if dx < 0 then (if dy < 0 then - pi - arctan (dy / (- dx))
                                   else pi - arctan (dy / (- dx)))
                     else arctan (dy / dx))"
  shows "cos theta = dx / sqrt (dx\<^sup>2 + dy\<^sup>2)" and "sin theta = dy / sqrt (dx\<^sup>2 + dy\<^sup>2)"
proof -
  have neg: "cos (arctan (dy / (- dx))) = - dx / sqrt (dx\<^sup>2 + dy\<^sup>2)"
       "sin (arctan (dy / (- dx))) = dy / sqrt (dx\<^sup>2 + dy\<^sup>2)" if "dx < 0"
    using that cos_arctan_div [of "- dx" dy] sin_arctan_div [of "- dx" dy] by simp_all
  have pos: "cos (arctan (dy / dx)) = dx / sqrt (dx\<^sup>2 + dy\<^sup>2)"
       "sin (arctan (dy / dx)) = dy / sqrt (dx\<^sup>2 + dy\<^sup>2)" if "0 < dx"
    using that by (simp_all add: cos_arctan_div sin_arctan_div)
  have flip: "cos (- pi - t) = - cos t" "sin (- pi - t) = sin t" for t :: real
    by (simp_all add: cos_diff sin_diff)
  show "cos theta = dx / sqrt (dx\<^sup>2 + dy\<^sup>2)"
  proof (cases "dx < 0")
    case True
    then show ?thesis
      unfolding theta_def by (simp only: if_True flip cos_pi_minus neg(1) [OF True] split: if_splits) simp
  next
    case False
    with assms(1) have "0 < dx" by simp
    then show ?thesis unfolding theta_def using False by (simp add: pos)
  qed
  show "sin theta = dy / sqrt (dx\<^sup>2 + dy\<^sup>2)"
  proof (cases "dx < 0")
    case True
    then show ?thesis
      unfolding theta_def by (simp only: if_True flip sin_pi_minus neg(2) [OF True] split: if_splits) simp
  next
    case False
    with assms(1) have "0 < dx" by simp
    then show ?thesis unfolding theta_def using False by (simp add: pos)
  qed
qed

lemma steer_angle_close:
  assumes acc: "accurate fp u" and u: "u \<le> 1" and dx: "dx \<noteq> 0"
  shows "\<exists>theta. \<bar>steer_angle fp dx dy - theta\<bar> \<le> u * (2 * \<bar>real_of_int dy\<bar> + 18)
           \<and> cos theta = real_of_int dx / sqrt ((real_of_int dx)\<^sup>2 + (real_of_int dy)\<^sup>2)
           \<and> sin theta = real_of_int dy / sqrt ((real_of_int dx)\<^sup>2 + (real_of_int dy)\<^sup>2)"
proof -
  note u0 = accurateD(1) [OF acc]
  define A where "A = \<bar>real_of_int dy\<bar>"
  define theta where "theta =
     (if real_of_int dx < 0 then (if real_of_int dy < 0
          then - pi - arctan (real_of_int dy / (- real_of_int dx))
          else pi - arctan (real_of_int dy / (- real_of_int dx)))
      else arctan (real_of_int dy / real_of_int dx))"
  from dx have "real_of_int dx \<noteq> 0" by simp
  then have cs: "cos theta = real_of_int dx / sqrt ((real_of_int dx)\<^sup>2 + (real_of_int dy)\<^sup>2)"
    "sin theta = real_of_int dy / sqrt ((real_of_int dx)\<^sup>2 + (real_of_int dy)\<^sup>2)"
    unfolding theta_def by (rule steer_theta)+
  have A0: "0 \<le> A" by (simp add: A_def)
  have pi_close: "\<bar>fl_pi fp - pi\<bar> \<le> u * 4" "\<bar>- fl_pi fp - (- pi)\<bar> \<le> u * 4"
  proof -
    have "u * pi \<le> u * 4"
      using u0 pi_less_4 by (intro mult_left_mono) simp_all
    with accurateD(16) [OF acc] show "\<bar>fl_pi fp - pi\<bar> \<le> u * 4" "\<bar>- fl_pi fp - (- pi)\<bar> \<le> u * 4"
      by linarith+
  qed
  have pi4: "\<bar>pi\<bar> \<le> 4" "\<bar>- pi\<bar> \<le> 4"
    using pi_less_4 pi_gt_zero by linarith+
  have close: "\<bar>steer_angle fp dx dy - theta\<bar> \<le> u * (2 * A + 18)"
  proof (cases "dx < 0")
    case neg: True
    then have m: "- dx \<noteq> 0" by simp
    define t where "t = fl_arctan fp (fl_truediv fp dy (- dx))"
    define t0 where "t0 = arctan (real_of_int dy / (- real_of_int dx))"
    have t: "\<bar>t - t0\<bar> \<le> u * (A + 2)"
      using approx_arctan [OF acc u m, of dy] by (simp add: t_def t0_def A_def)
    have t2: "\<bar>t0\<bar> \<le> 2"
      unfolding t0_def by (rule abs_arctan_less_2)
    show ?thesis
    proof (cases "dy < 0")
      case True
      have "\<bar>fl_sub fp (- fl_pi fp) t - (- pi - t0)\<bar> \<le> u * (2 * 4 + 2 * (A + 2) + 4 + 2)"
        using acc u pi_close(2) t pi4(2) t2 by (rule approx_sub)
      moreover have "u * (2 * 4 + 2 * (A + 2) + 4 + 2) = u * (2 * A + 18)"
        by simp
      moreover have "steer_angle fp dx dy = fl_sub fp (- fl_pi fp) t"
        using neg True by (simp add: steer_angle_def t_def)
      moreover have "theta = - pi - t0"
        using neg True by (simp add: theta_def t0_def)
      ultimately show ?thesis
        by (simp only:)
    next
      case False
      have "\<bar>fl_sub fp (fl_pi fp) t - (pi - t0)\<bar> \<le> u * (2 * 4 + 2 * (A + 2) + 4 + 2)"
        using acc u pi_close(1) t pi4(1) t2 by (rule approx_sub)
      moreover have "u * (2 * 4 + 2 * (A + 2) + 4 + 2) = u * (2 * A + 18)"
        by simp
      moreover have "steer_angle fp dx dy = fl_sub fp (fl_pi fp) t"
        using neg False by (simp add: steer_angle_def t_def)
      moreover have "theta = pi - t0"
        using neg False by (simp add: theta_def t0_def)
      ultimately show ?thesis
        by (simp only:)
    qed
  next
    case False
    have "\<bar>fl_arctan fp (fl_truediv fp dy dx) - arctan (real_of_int dy / real_of_int dx)\<bar>
            \<le> u * (A + 2)"
      using approx_arctan [OF acc u dx, of dy] by (simp add: A_def)
    moreover have "u * (A + 2) \<le> u * (2 * A + 18)"
      using u0 A0 by (intro mult_left_mono) simp_all
    moreover have "steer_angle fp dx dy = fl_arctan fp (fl_truediv fp dy dx)"
      using False by (simp add: steer_angle_def)
    moreover have "theta = arctan (real_of_int dy / real_of_int dx)"
      using False by (simp add: theta_def)
    ultimately show ?thesis
      by (simp only:; linarith)
  qed
  from close cs show ?thesis
    unfolding A_def by blast
qed

lemma approx_offset:
  assumes acc: "accurate fp u" and u: "u \<le> 1"
    and g: "\<bar>g' - g\<bar> \<le> u * K" and g1: "\<bar>g\<bar> \<le> 1"
  shows "\<bar>fl_add fp (fl_int fp c) (fl_mul fp g' r) - (real_of_int c + g * r)\<bar>
           \<le> u * (3 * \<bar>real_of_int c\<bar> + \<bar>r\<bar> * (4 * K + 3))"
proof -
  have m: "\<bar>fl_mul fp g' r - g * r\<bar> \<le> u * (\<bar>r\<bar> * (2 * K + 1))"
    using acc u g g1 by (rule approx_mul)
  have "\<bar>g * r\<bar> \<le> 1 * \<bar>r\<bar>"
    unfolding abs_mult using g1 by (rule mult_right_mono) simp
  then have gr: "\<bar>g * r\<bar> \<le> \<bar>r\<bar>" by simp
  have "\<bar>fl_add fp (fl_int fp c) (fl_mul fp g' r) - (real_of_int c + g * r)\<bar>
          \<le> u * (2 * \<bar>real_of_int c\<bar> + 2 * (\<bar>r\<bar> * (2 * K + 1)) + \<bar>real_of_int c\<bar> + \<bar>r\<bar>)"
    using acc u accurateD(2) [OF acc, of c] m order_refl gr by (rule approx_add)
  then show ?thesis
    by (simp add: algebra_simps)
qed

lemma approx_trig:
  assumes acc: "accurate fp u" and u: "u \<le> 1" and t: "\<bar>t' - t\<bar> \<le> u * K"
  shows "\<bar>fl_sin fp t' - sin t\<bar> \<le> u * (K + 1)" and "\<bar>fl_cos fp t' - cos t\<bar> \<le> u * (K + 1)"
proof -
  from accurateD(14) [OF acc, of t'] sin_lipschitz [of t' t] t
  have "\<bar>fl_sin fp t' - sin t\<bar> \<le> u * K + u" by linarith
  then show "\<bar>fl_sin fp t' - sin t\<bar> \<le> u * (K + 1)"
    by (simp add: algebra_simps)
  from accurateD(15) [OF acc, of t'] cos_lipschitz [of t' t] t
  have "\<bar>fl_cos fp t' - cos t\<bar> \<le> u * K + u" by linarith
  then show "\<bar>fl_cos fp t' - cos t\<bar> \<le> u * (K + 1)"
    by (simp add: algebra_simps)
qed

lemma steer_algorithm_oblique:
  assumes "x s2 \<noteq> x s1"
  shows "steer_algorithm fp s1 s2 H r =
     (py_int (fl_add fp (fl_int fp (x s1))
                (fl_mul fp (fl_cos fp (steer_angle fp (x s2 - x s1) (y s1 - y s2))) r)),
      H - py_int (fl_add fp (fl_int fp (H - y s1))
                (fl_mul fp (fl_sin fp (steer_angle fp (x s2 - x s1) (y s1 - y s2))) r)))"
  using assms by (simp add: steer_algorithm_def Let_def steer_angle_def)

lemma steer_algorithm_vertical:
  assumes "x s2 = x s1"
  shows "steer_algorithm fp s1 s2 H r =
     (x s1, py_int (fl_sub fp (fl_int fp H)
                      (fl_add fp (fl_int fp (H - y s1))
                         (fl_mul fp (fl_int fp (- np_sign (y s2 - y s1))) r))))"
  using assms by (simp add: steer_algorithm_def Let_def)

lemma straight_distance_pos:
  assumes "x t \<noteq> x s \<or> y t \<noteq> y s"
  shows "0 < straight_distance s t"
proof -
  have "0 < (real_of_int (x t - x s))\<^sup>2 + (real_of_int (y t - y s))\<^sup>2"
    using assms by (simp add: sum_power2_gt_zero_iff)
  then show ?thesis
    by (simp add: straight_distance_def)
qed

lemma steer_error_nonneg:
  assumes "0 \<le> u"
  shows "0 \<le> steer_error u s1 s2 H r"
  unfolding steer_error_def using assms by (intro mult_nonneg_nonneg add_nonneg_nonneg) simp_all

lemma steer_algorithm_close_oblique:
  assumes acc: "accurate fp u" and u: "u \<le> 1" and ne: "x s2 \<noteq> x s1"
  shows "\<bar>real_of_int (fst (steer_algorithm fp s1 s2 H r)) - fst (ray_point s1 s2 r)\<bar>
           < 1 + steer_error u s1 s2 H r"
    and "\<bar>real_of_int (snd (steer_algorithm fp s1 s2 H r)) - snd (ray_point s1 s2 r)\<bar>
           < 1 + steer_error u s1 s2 H r"
proof -
  note u0 = accurateD(1) [OF acc]
  define dx where "dx = x s2 - x s1"
  define dy where "dy = y s1 - y s2"
  define A where "A = \<bar>real_of_int dy\<bar>"
  define d where "d = straight_distance s1 s2"
  from ne have dx0: "dx \<noteq> 0" by (simp add: dx_def)
  from steer_angle_close [OF acc u dx0, of dy] obtain theta where
    th: "\<bar>steer_angle fp dx dy - theta\<bar> \<le> u * (2 * A + 18)"
    and c: "cos theta = real_of_int dx / sqrt ((real_of_int dx)\<^sup>2 + (real_of_int dy)\<^sup>2)"
    and s: "sin theta = real_of_int dy / sqrt ((real_of_int dx)\<^sup>2 + (real_of_int dy)\<^sup>2)"
    unfolding A_def by blast
  have dd: "sqrt ((real_of_int dx)\<^sup>2 + (real_of_int dy)\<^sup>2) = d"
    by (simp add: d_def straight_distance_def dx_def dy_def power2_commute)
  note tr = approx_trig [OF acc u th]
  have A0: "0 \<le> A" by (simp add: A_def)
  have rA: "0 \<le> \<bar>r\<bar> * (8 * A + 79)"
    using A0 by (intro mult_nonneg_nonneg) simp_all
  \<comment> \<open>the two doubles that are truncated\<close>
  define xf where "xf = fl_add fp (fl_int fp (x s1)) (fl_mul fp (fl_cos fp (steer_angle fp dx dy)) r)"
  define yf where "yf = fl_add fp (fl_int fp (H - y s1)) (fl_mul fp (fl_sin fp (steer_angle fp dx dy)) r)"
  have "\<bar>xf - (real_of_int (x s1) + cos theta * r)\<bar>
          \<le> u * (3 * \<bar>real_of_int (x s1)\<bar> + \<bar>r\<bar> * (4 * (2 * A + 18 + 1) + 3))"
    unfolding xf_def using acc u tr(2) by (rule approx_offset) simp
  also have "\<dots> \<le> steer_error u s1 s2 H r"
    unfolding steer_error_def using u0
    by (intro mult_left_mono) (simp_all add: A_def dy_def algebra_simps abs_minus_commute)
  finally have xe: "\<bar>xf - (real_of_int (x s1) + cos theta * r)\<bar> \<le> steer_error u s1 s2 H r" .
  have "\<bar>yf - (real_of_int (H - y s1) + sin theta * r)\<bar>
          \<le> u * (3 * \<bar>real_of_int (H - y s1)\<bar> + \<bar>r\<bar> * (4 * (2 * A + 18 + 1) + 3))"
    unfolding yf_def using acc u tr(1) by (rule approx_offset) simp
  also have "\<dots> \<le> steer_error u s1 s2 H r"
    unfolding steer_error_def using u0
    by (intro mult_left_mono) (simp_all add: A_def dy_def algebra_simps abs_minus_commute)
  finally have ye: "\<bar>yf - (real_of_int (H - y s1) + sin theta * r)\<bar> \<le> steer_error u s1 s2 H r" .
  have res: "steer_algorithm fp s1 s2 H r = (py_int xf, H - py_int yf)"
    by (simp add: steer_algorithm_oblique [OF ne] xf_def yf_def dx_def dy_def)
  have c': "cos theta = real_of_int (x s2 - x s1) / straight_distance s1 s2"
    using c dd by (simp add: d_def dx_def)
  have s': "sin theta = - (real_of_int (y s2 - y s1) / straight_distance s1 s2)"
    using s dd by (simp add: d_def dy_def minus_divide_left)
  have rx: "fst (ray_point s1 s2 r) = real_of_int (x s1) + cos theta * r"
    unfolding c' by (simp add: ray_point_def)
  have ry: "snd (ray_point s1 s2 r) = real_of_int H - (real_of_int (H - y s1) + sin theta * r)"
    unfolding s' by (simp add: ray_point_def)
  show "\<bar>real_of_int (fst (steer_algorithm fp s1 s2 H r)) - fst (ray_point s1 s2 r)\<bar>
           < 1 + steer_error u s1 s2 H r"
    using py_int_close [of xf] xe by (simp add: res rx; linarith)
  show "\<bar>real_of_int (snd (steer_algorithm fp s1 s2 H r)) - snd (ray_point s1 s2 r)\<bar>
           < 1 + steer_error u s1 s2 H r"
    using py_int_close [of yf] ye by (simp add: res ry; linarith)
qed

lemma np_sign_abs: "\<bar>real_of_int (np_sign k)\<bar> \<le> 1"
  by (simp add: np_sign_def)

lemma steer_algorithm_close_vertical:
  assumes acc: "accurate fp u" and u: "u \<le> 1" and eq: "x s2 = x s1"
  shows "fst (steer_algorithm fp s1 s2 H r) = x s1"
    and "\<bar>real_of_int (snd (steer_algorithm fp s1 s2 H r))
           - (real_of_int (y s1) + real_of_int (np_sign (y s2 - y s1)) * r)\<bar>
           < 1 + steer_error u s1 s2 H r"
proof -
  note u0 = accurateD(1) [OF acc]
  define sg where "sg = - np_sign (y s2 - y s1)"
  define y1 where "y1 = H - y s1"
  define m where "m = fl_mul fp (fl_int fp sg) r"
  define yv where "yv = fl_add fp (fl_int fp y1) m"
  define w where "w = fl_sub fp (fl_int fp H) yv"
  have res: "steer_algorithm fp s1 s2 H r = (x s1, py_int w)"
    by (simp add: steer_algorithm_vertical [OF eq] w_def yv_def m_def sg_def y1_def)
  then show "fst (steer_algorithm fp s1 s2 H r) = x s1"
    by simp
  have sg1: "\<bar>real_of_int sg\<bar> \<le> 1"
    using np_sign_abs [of "y s2 - y s1"] by (simp add: sg_def)
  have "\<bar>sg\<bar> \<le> 2 ^ 53"
    by (simp add: sg_def np_sign_def)
  then have fsg: "fl_int fp sg = real_of_int sg"
    by (rule accurateD(3) [OF acc])
  have sr: "\<bar>real_of_int sg * r\<bar> \<le> \<bar>r\<bar>"
    unfolding abs_mult using mult_right_mono [OF sg1, of "\<bar>r\<bar>"] by simp
  then have "u * \<bar>real_of_int sg * r\<bar> \<le> u * \<bar>r\<bar>"
    using u0 by (rule mult_left_mono)
  with accurateD(8) [OF acc, of "real_of_int sg" r]
  have m: "\<bar>m - real_of_int sg * r\<bar> \<le> u * \<bar>r\<bar>"
    by (simp add: m_def fsg)
  have yv: "\<bar>yv - (real_of_int y1 + real_of_int sg * r)\<bar>
              \<le> u * (2 * \<bar>real_of_int y1\<bar> + 2 * \<bar>r\<bar> + \<bar>real_of_int y1\<bar> + \<bar>r\<bar>)"
    unfolding yv_def using acc u accurateD(2) [OF acc, of y1] m order_refl sr
    by (rule approx_add)
  have "\<bar>real_of_int y1 + real_of_int sg * r\<bar> \<le> \<bar>real_of_int y1\<bar> + \<bar>r\<bar>"
    using sr by linarith
  with acc u accurateD(2) [OF acc, of H] yv order_refl
  have "\<bar>w - (real_of_int H - (real_of_int y1 + real_of_int sg * r))\<bar>
          \<le> u * (2 * \<bar>real_of_int H\<bar>
                   + 2 * (2 * \<bar>real_of_int y1\<bar> + 2 * \<bar>r\<bar> + \<bar>real_of_int y1\<bar> + \<bar>r\<bar>)
                   + \<bar>real_of_int H\<bar> + (\<bar>real_of_int y1\<bar> + \<bar>r\<bar>))"
    unfolding w_def by (rule approx_sub)
  also have "\<dots> \<le> steer_error u s1 s2 H r"
  proof -
    have "0 \<le> \<bar>r\<bar> * (8 * \<bar>real_of_int (y s2 - y s1)\<bar> + 72)"
      by (intro mult_nonneg_nonneg) simp_all
    then show ?thesis
      unfolding steer_error_def using u0
      by (intro mult_left_mono) (simp_all add: y1_def algebra_simps)
  qed
  finally have "\<bar>w - (real_of_int H - (real_of_int y1 + real_of_int sg * r))\<bar>
                  \<le> steer_error u s1 s2 H r" .
  moreover have "real_of_int H - (real_of_int y1 + real_of_int sg * r)
                 = real_of_int (y s1) + real_of_int (np_sign (y s2 - y s1)) * r"
    by (simp add: y1_def sg_def algebra_simps)
  ultimately show "\<bar>real_of_int (snd (steer_algorithm fp s1 s2 H r))
           - (real_of_int (y s1) + real_of_int (np_sign (y s2 - y s1)) * r)\<bar>
           < 1 + steer_error u s1 s2 H r"
    using py_int_close [of w] by (simp add: res; linarith)
qed

lemma ray_point_vertical:
  assumes "x s2 = x s1" and "y s2 \<noteq> y s1"
  shows "ray_point s1 s2 r
           = (real_of_int (x s1), real_of_int (y s1) + real_of_int (np_sign (y s2 - y s1)) * r)"
proof -
  define k where "k = y s2 - y s1"
  from assms(2) have k: "k \<noteq> 0" by (simp add: k_def)
  have "straight_distance s1 s2 = \<bar>real_of_int k\<bar>"
    using assms(1) by (simp add: straight_distance_def k_def)
  moreover have "r * real_of_int k / \<bar>real_of_int k\<bar> = real_of_int (np_sign k) * r"
    using k by (simp add: np_sign_def)
  ultimately show ?thesis
    using assms(1) by (simp add: ray_point_def k_def)
qed

lemma steer_algorithm_close:
  assumes acc: "accurate fp u" and u: "u \<le> 1" and ne: "x s2 \<noteq> x s1 \<or> y s2 \<noteq> y s1"
  shows "\<bar>real_of_int (fst (steer_algorithm fp s1 s2 H r)) - fst (ray_point s1 s2 r)\<bar>
           < 1 + steer_error u s1 s2 H r"
    and "\<bar>real_of_int (snd (steer_algorithm fp s1 s2 H r)) - snd (ray_point s1 s2 r)\<bar>
           < 1 + steer_error u s1 s2 H r"
proof -
  have "\<bar>real_of_int (fst (steer_algorithm fp s1 s2 H r)) - fst (ray_point s1 s2 r)\<bar>
           < 1 + steer_error u s1 s2 H r
      \<and> \<bar>real_of_int (snd (steer_algorithm fp s1 s2 H r)) - snd (ray_point s1 s2 r)\<bar>
           < 1 + steer_error u s1 s2 H r"
  proof (cases "x s2 = x s1")
    case True
    with ne have y: "y s2 \<noteq> y s1" by simp
    have "0 \<le> steer_error u s1 s2 H r"
      using accurateD(1) [OF acc] by (rule steer_error_nonneg)
    with steer_algorithm_close_vertical [OF acc u True, of H r] show ?thesis
      by (simp add: ray_point_vertical [OF True y])
  next
    case False
    with steer_algorithm_close_oblique [OF acc u False, of H r] show ?thesis
      by simp
  qed
  then show "\<bar>real_of_int (fst (steer_algorithm fp s1 s2 H r)) - fst (ray_point s1 s2 r)\<bar>
           < 1 + steer_error u s1 s2 H r"
    and "\<bar>real_of_int (snd (steer_algorithm fp s1 s2 H r)) - snd (ray_point s1 s2 r)\<bar>
           < 1 + steer_error u s1 s2 H r"
    by simp_all
qed

lemma straight_distance_eq:
  assumes "0 \<le> k" and "(x t - x s)\<^sup>2 + (y t - y s)\<^sup>2 = k\<^sup>2"
  shows "straight_distance s t = real_of_int k"
proof -
  have "sqrt (real_of_int ((x t - x s)\<^sup>2 + (y t - y s)\<^sup>2)) = sqrt ((real_of_int k)\<^sup>2)"
    by (simp only: assms(2) of_int_power)
  with assms(1) show ?thesis
    by (simp add: straight_distance_def)
qed

lemma euclidean_distance_bounds:
  assumes acc: "accurate fp u"
  shows "straight_distance s t * (97 / 100) \<le> euclidean_distance fp s t"
    and "euclidean_distance fp s t \<le> straight_distance s t * (103 / 100)"
proof -
  note u0 = accurateD(1) [OF acc] and u = accurate_small [OF acc]
  have "u * (3 * straight_distance s t) \<le> 1 / 100 * (3 * straight_distance s t)"
    using u(1) straight_distance_nonneg [of s t] by (intro mult_right_mono) simp_all
  with euclidean_distance_close [OF acc u(2), of s t]
  show "straight_distance s t * (97 / 100) \<le> euclidean_distance fp s t"
    and "euclidean_distance fp s t \<le> straight_distance s t * (103 / 100)"
    by linarith+
qed

lemma euclidean_distance_positions:
  assumes acc: "accurate fp u" and "0 < r" and "\<not> euclidean_distance fp s t \<le> r"
  shows "x t \<noteq> x s \<or> y t \<noteq> y s"
proof (rule ccontr)
  assume "\<not> (x t \<noteq> x s \<or> y t \<noteq> y s)"
  then have "euclidean_distance fp s t = 0"
    using euclidean_distance_same [OF acc, of t s] by simp
  with assms(2,3) show False by simp
qed

lemma steer_vertical_integer:
  assumes acc: "accurate fp u" and eq: "x s2 = x s1"
    and H: "0 \<le> H" "H \<le> 2 ^ 52" and ys: "\<bar>y s1\<bar> \<le> 2 ^ 20" and k: "\<bar>k\<bar> \<le> 2 ^ 20"
  shows "steer_algorithm fp s1 s2 H (real_of_int k) = (x s1, y s1 + np_sign (y s2 - y s1) * k)"
proof -
  define sg where "sg = - np_sign (y s2 - y s1)"
  have sg: "sg = - 1 \<or> sg = 0 \<or> sg = 1"
    by (auto simp: sg_def np_sign_def)
  then have sgk: "\<bar>sg * k\<bar> \<le> 2 ^ 20"
    using k by auto
  have 1: "fl_int fp sg = real_of_int sg"
    using sg by (intro accurateD(3) [OF acc]) auto
  have 2: "fl_mul fp (real_of_int sg) (real_of_int k) = real_of_int (sg * k)"
    using accurateD(9) [OF acc, of "real_of_int sg" "real_of_int k" "sg * k"] sgk by simp
  have 3: "fl_int fp (H - y s1) = real_of_int (H - y s1)"
    using H ys by (intro accurateD(3) [OF acc]) simp
  have 4: "fl_add fp (real_of_int (H - y s1)) (real_of_int (sg * k))
             = real_of_int (H - y s1 + sg * k)"
    using accurateD(5) [OF acc, of "real_of_int (H - y s1)" "real_of_int (sg * k)"
            "H - y s1 + sg * k"] H ys sgk
    by simp
  have 5: "fl_int fp H = real_of_int H"
    using H by (intro accurateD(3) [OF acc]) simp
  have 6: "fl_sub fp (real_of_int H) (real_of_int (H - y s1 + sg * k))
             = real_of_int (y s1 - sg * k)"
    using accurateD(7) [OF acc, of "real_of_int H" "real_of_int (H - y s1 + sg * k)"
            "y s1 - sg * k"] ys sgk
    by simp
  show ?thesis
    unfolding steer_algorithm_vertical [OF eq] sg_def [symmetric]
    by (simp only: 1 2 3 4 5 6 py_int_of_int) (simp add: sg_def)
qed

text \<open>
  C2, as the code has it. Within the radius (as the code measures it) the new state has the
  coordinates of the target. Beyond it, each coordinate of the new state is the truncation
  of a double that is the coordinate of the point on the ray from \<open>from\<close> through \<open>to\<close> at
  distance \<open>r\<close>, up to the rounding of the arithmetic: it is less than 1 plus the rounding
  error away from it, in every quadrant and in the vertical case. The two examples of the
  specification come out as it says.
\<close>

theorem steer_towards_coordinates:
  assumes "accurate fp u" and "0 < r"
  shows "(euclidean_distance fp s_rand (h ! n) \<le> r \<longrightarrow>
            x (steer_towards fp self h n s_rand r) = x s_rand
            \<and> y (steer_towards fp self h n s_rand r) = y s_rand)
       \<and> (\<not> euclidean_distance fp s_rand (h ! n) \<le> r \<longrightarrow>
            0 < straight_distance (h ! n) s_rand
            \<and> \<bar>real_of_int (x (steer_towards fp self h n s_rand r))
                 - fst (ray_point (h ! n) s_rand r)\<bar>
                < 1 + steer_error u (h ! n) s_rand (int (nrows (world self))) r
            \<and> \<bar>real_of_int (y (steer_towards fp self h n s_rand r))
                 - snd (ray_point (h ! n) s_rand r)\<bar>
                < 1 + steer_error u (h ! n) s_rand (int (nrows (world self))) r)
       \<and> \<bar>euclidean_distance fp s_rand (h ! n) - straight_distance (h ! n) s_rand\<bar>
            \<le> u * (3 * straight_distance (h ! n) s_rand)
       \<and> (nrows (world self) \<le> 2 ^ 52 \<longrightarrow>
            steer_towards fp self [new_State 50 50 None] 0 (new_State 50 10 None) 20
              = new_State 50 30 (Some 0)
            \<and> steer_towards fp self [new_State 50 50 None] 0 (new_State 50 90 None) 20
              = new_State 50 70 (Some 0))"
proof (intro conjI impI)
  note u = accurate_small [OF assms(1)]
  {
    assume "euclidean_distance fp s_rand (h ! n) \<le> r"
    then show "x (steer_towards fp self h n s_rand r) = x s_rand"
      and "y (steer_towards fp self h n s_rand r) = y s_rand"
      by (simp_all add: steer_towards_def new_State_def)
  }
  {
    assume far: "\<not> euclidean_distance fp s_rand (h ! n) \<le> r"
    define H where "H = int (nrows (world self))"
    have ne: "x s_rand \<noteq> x (h ! n) \<or> y s_rand \<noteq> y (h ! n)"
      using euclidean_distance_positions [OF assms far] by auto
    then show "0 < straight_distance (h ! n) s_rand"
      by (rule straight_distance_pos)
    have st: "steer_towards fp self h n s_rand r =
                new_State (fst (steer_algorithm fp (h ! n) s_rand H r))
                  (snd (steer_algorithm fp (h ! n) s_rand H r)) (Some n)"
      using far by (simp add: steer_towards_def H_def split_beta)
    from steer_algorithm_close [OF assms(1) u(2) ne, of H r]
    show "\<bar>real_of_int (x (steer_towards fp self h n s_rand r))
                 - fst (ray_point (h ! n) s_rand r)\<bar>
                < 1 + steer_error u (h ! n) s_rand (int (nrows (world self))) r"
      and "\<bar>real_of_int (y (steer_towards fp self h n s_rand r))
                 - snd (ray_point (h ! n) s_rand r)\<bar>
                < 1 + steer_error u (h ! n) s_rand (int (nrows (world self))) r"
      by (simp_all add: st new_State_def H_def)
  }
  show "\<bar>euclidean_distance fp s_rand (h ! n) - straight_distance (h ! n) s_rand\<bar>
            \<le> u * (3 * straight_distance (h ! n) s_rand)"
    using euclidean_distance_close [OF assms(1) u(2), of s_rand "h ! n"]
    by (simp add: straight_distance_commute)
  {
    assume rows: "nrows (world self) \<le> 2 ^ 52"
    then have H: "0 \<le> int (nrows (world self))" "int (nrows (world self)) \<le> 2 ^ 52"
      by (simp_all add: of_nat_le_iff [of _ "2 ^ 52", simplified])
    have far: "\<not> euclidean_distance fp (new_State 50 yt None) (new_State 50 50 None) \<le> 20"
      if "yt = 10 \<or> yt = 90" for yt
    proof -
      have "straight_distance (new_State 50 yt None) (new_State 50 50 None) = real_of_int 40"
        using that by (intro straight_distance_eq) (auto simp: new_State_def)
      with euclidean_distance_bounds(1) [OF assms(1), of "new_State 50 yt None" "new_State 50 50 None"]
      show ?thesis by simp
    qed
    have v: "steer_algorithm fp (new_State 50 50 None) (new_State 50 yt None)
               (int (nrows (world self))) (real_of_int 20)
             = (50, 50 + np_sign (yt - 50) * 20)" for yt
      using steer_vertical_integer [OF assms(1) _ H, of "new_State 50 yt None" "new_State 50 50 None" 20]
      by (simp add: new_State_def)
    show "steer_towards fp self [new_State 50 50 None] 0 (new_State 50 10 None) 20
              = new_State 50 30 (Some 0)"
      using far [of 10] v [of 10] by (simp add: steer_towards_def np_sign_def)
    show "steer_towards fp self [new_State 50 50 None] 0 (new_State 50 90 None) 20
              = new_State 50 70 (Some 0)"
      using far [of 90] v [of 90] by (simp add: steer_towards_def np_sign_def)
  }
qed

lemma euclidean_distance_exact:
  "euclidean_distance exact_float s t = straight_distance s t"
  by (simp add: euclidean_distance_def straight_distance_def)

lemma steer_angle_exact:
  assumes "dx \<noteq> 0"
  shows "cos (steer_angle exact_float dx dy)
           = real_of_int dx / sqrt ((real_of_int dx)\<^sup>2 + (real_of_int dy)\<^sup>2)"
    and "sin (steer_angle exact_float dx dy)
           = real_of_int dy / sqrt ((real_of_int dx)\<^sup>2 + (real_of_int dy)\<^sup>2)"
proof -
  have eq: "steer_angle exact_float dx dy =
     (if real_of_int dx < 0 then (if real_of_int dy < 0
          then - pi - arctan (real_of_int dy / (- real_of_int dx))
          else pi - arctan (real_of_int dy / (- real_of_int dx)))
      else arctan (real_of_int dy / real_of_int dx))"
    by (simp add: steer_angle_def)
  from assms have "real_of_int dx \<noteq> 0"
    by simp
  then show "cos (steer_angle exact_float dx dy)
           = real_of_int dx / sqrt ((real_of_int dx)\<^sup>2 + (real_of_int dy)\<^sup>2)"
    and "sin (steer_angle exact_float dx dy)
           = real_of_int dy / sqrt ((real_of_int dx)\<^sup>2 + (real_of_int dy)\<^sup>2)"
    unfolding eq by (rule steer_theta)+
qed

lemma sqrt_3364: "sqrt 3364 = 58"
  by (rule real_sqrt_unique) simp_all

lemma sqrt_2500: "sqrt 2500 = 50"
  by (rule real_sqrt_unique) simp_all

lemma distance_example:
  "straight_distance (new_State 50 50 None) (new_State 90 8 None) = 58"
  "straight_distance (new_State 90 8 None) (new_State 50 50 None) = 58"
  "straight_distance (new_State 50 50 None) (new_State 2 64 None) = 50"
  "straight_distance (new_State 2 64 None) (new_State 50 50 None) = 50"
  by (simp_all add: straight_distance_def new_State_def sqrt_3364 sqrt_2500)

lemma steer_example:
  "steer_towards exact_float (RRTPlanner_init free_world) [new_State 50 50 None] 0
       (new_State 90 8 None) 26
     = new_State 67 32 (Some 0)"
proof -
  have ne: "x (new_State 90 8 None) \<noteq> x (new_State 50 50 None)"
    by (simp add: new_State_def)
  have cs: "cos (steer_angle exact_float 40 42) = 40 / 58"
    "sin (steer_angle exact_float 40 42) = 42 / 58"
    using steer_angle_exact [of 40 42] by (simp_all add: sqrt_3364)
  show ?thesis
    by (simp add: steer_towards_def euclidean_distance_exact distance_example
          steer_algorithm_oblique [OF ne])
       (simp add: new_State_def cs py_int_def RRTPlanner_init_def free_world_def)
qed

text \<open>
  The tolerance does not carry over to the distance. Steering from (50, 50) toward
  (90, 8), 58 away, with radius 26 gives (67, 32): the point at distance 26 on the ray is
  (67.93..., 31.17...), and (67, 32) is 24.76 from (50, 50), more than 1 short of 26.
\<close>

theorem steer_towards_distance_counterexample:
  "26 < euclidean_distance exact_float (new_State 90 8 None) (new_State 50 50 None)
   \<and> steer_towards exact_float (RRTPlanner_init free_world) [new_State 50 50 None] 0
         (new_State 90 8 None) 26
       = new_State 67 32 (Some 0)
   \<and> \<not> \<bar>straight_distance (new_State 50 50 None) (new_State 67 32 (Some 0)) - 26\<bar> \<le> 1"
proof -
  have "sqrt 613 < 25"
    by (rule real_less_lsqrt) simp_all
  then have "straight_distance (new_State 50 50 None) (new_State 67 32 (Some 0)) < 25"
    by (simp add: straight_distance_def new_State_def)
  then show ?thesis
    by (simp add: euclidean_distance_exact distance_example steer_example)
qed

lemma new_State_sel [simp]:
  "x (new_State a b p) = a" "y (new_State a b p) = b" "parent (new_State a b p) = p"
  "children (new_State a b p) = []"
  by (simp_all add: new_State_def)

lemma rounded_sin_simps [simp]:
  "fl_int rounded_sin = real_of_int" "fl_add rounded_sin = (+)" "fl_sub rounded_sin = (-)"
  "fl_mul rounded_sin = (*)" "fl_div rounded_sin = (/)"
  "fl_truediv rounded_sin = (\<lambda>n m. real_of_int n / real_of_int m)"
  "fl_sqrt rounded_sin = sqrt" "fl_arctan rounded_sin = arctan"
  "fl_sin rounded_sin = (\<lambda>a. sin a * (1 + 1 / 2 ^ 52))"
  "fl_cos rounded_sin = cos" "fl_pi rounded_sin = pi"
  by (simp_all add: rounded_sin_def)

lemma accurate_rounded_sin: "accurate rounded_sin (1 / 2 ^ 52)"
proof -
  have "\<bar>sin a * (1 + 1 / 2 ^ 52) - sin a\<bar> \<le> 1 / 2 ^ 52" for a :: real
  proof -
    have "sin a * (1 + 1 / 2 ^ 52) - sin a = sin a * (1 / 2 ^ 52)"
      by (simp add: algebra_simps)
    moreover have "\<bar>sin a * (1 / 2 ^ 52)\<bar> \<le> 1 * (1 / 2 ^ 52)"
      unfolding abs_mult by (intro mult_mono) simp_all
    ultimately show ?thesis
      by simp
  qed
  then show ?thesis
    by (simp add: accurate_def)
qed

text \<open>
  The rounding can move a coordinate a whole unit away from the ray. From (50, 50) toward
  (2, 64), 50 away, the point at distance 25 on the ray is (26, 57): its row is a whole
  number. With a sine that is too large in magnitude by one part in \<open>2^52\<close> the double
  that is truncated is just below 43 in the flipped frame, and the code answers (26, 58).
\<close>

lemma steer_towards_rounding_example:
  "steer_towards rounded_sin (RRTPlanner_init free_world) [new_State 50 50 None] 0
       (new_State 2 64 None) 25
     = new_State 26 58 (Some 0)"
  "ray_point (new_State 50 50 None) (new_State 2 64 None) 25 = (26, 57)"
proof -
  have ne: "x (new_State 2 64 None) \<noteq> x (new_State 50 50 None)"
    by (simp add: new_State_def)
  have a: "steer_angle rounded_sin dx dy = steer_angle exact_float dx dy" for dx dy
    by (simp add: steer_angle_def)
  have cs: "cos (steer_angle exact_float (- 48) (- 14)) = - 48 / 50"
    "sin (steer_angle exact_float (- 48) (- 14)) = - 14 / 50"
    using steer_angle_exact [of "- 48" "- 14"] by (simp_all add: sqrt_2500)
  have d: "euclidean_distance rounded_sin (new_State 2 64 None) (new_State 50 50 None) = 50"
    by (simp add: euclidean_distance_def new_State_def sqrt_2500)
  have f: "\<lfloor>43 - 7 / (2 ^ 52 :: real)\<rfloor> = 42"
    by (rule floor_unique) simp_all
  show "steer_towards rounded_sin (RRTPlanner_init free_world) [new_State 50 50 None] 0
       (new_State 2 64 None) 25
     = new_State 26 58 (Some 0)"
    by (simp add: steer_towards_def d steer_algorithm_oblique [OF ne] a;
        simp add: new_State_def cs py_int_def RRTPlanner_init_def free_world_def algebra_simps f)
  show "ray_point (new_State 50 50 None) (new_State 2 64 None) 25 = (26, 57)"
    by (simp add: ray_point_def distance_example; simp add: new_State_def)
qed

theorem steer_towards_coordinates_witness:
  "accurate rounded_sin (1 / 2 ^ 52) \<and> (0::real) < 25
   \<and> \<not> euclidean_distance rounded_sin (new_State 2 64 None) ([new_State 50 50 None] ! 0) \<le> 25
   \<and> x (steer_towards rounded_sin (RRTPlanner_init free_world) [new_State 50 50 None] 0
           (new_State 2 64 None) 25) = 26
   \<and> y (steer_towards rounded_sin (RRTPlanner_init free_world) [new_State 50 50 None] 0
           (new_State 2 64 None) 25) = 58
   \<and> ray_point ([new_State 50 50 None] ! 0) (new_State 2 64 None) 25 = (26, 57)
   \<and> \<bar>real_of_int 58 - 57\<bar>
        < 1 + steer_error (1 / 2 ^ 52) ([new_State 50 50 None] ! 0) (new_State 2 64 None)
                (int (nrows (world (RRTPlanner_init free_world)))) 25
   \<and> euclidean_distance rounded_sin (new_State 50 50 None) ([new_State 50 50 None] ! 0) \<le> 25
   \<and> x (steer_towards rounded_sin (RRTPlanner_init free_world) [new_State 50 50 None] 0
           (new_State 50 50 None) 25) = 50"
proof -
  have r: "(0::real) < 25"
    by simp
  have far: "\<not> euclidean_distance rounded_sin (new_State 2 64 None)
                 ([new_State 50 50 None] ! 0) \<le> 25"
    by (simp add: euclidean_distance_def new_State_def sqrt_2500)
  have near: "euclidean_distance rounded_sin (new_State 50 50 None)
                 ([new_State 50 50 None] ! 0) \<le> 25"
    by (simp add: euclidean_distance_def new_State_def)
  note t = steer_towards_coordinates [OF accurate_rounded_sin r]
  from t [of "new_State 2 64 None" "[new_State 50 50 None]" 0 "RRTPlanner_init free_world"] far
  have "\<bar>real_of_int (y (steer_towards rounded_sin (RRTPlanner_init free_world)
                           [new_State 50 50 None] 0 (new_State 2 64 None) 25))
            - snd (ray_point ([new_State 50 50 None] ! 0) (new_State 2 64 None) 25)\<bar>
          < 1 + steer_error (1 / 2 ^ 52) ([new_State 50 50 None] ! 0) (new_State 2 64 None)
                (int (nrows (world (RRTPlanner_init free_world)))) 25"
    by blast
  then have 1: "\<bar>real_of_int 58 - 57\<bar>
        < 1 + steer_error (1 / 2 ^ 52) ([new_State 50 50 None] ! 0) (new_State 2 64 None)
                (int (nrows (world (RRTPlanner_init free_world)))) 25"
    by (simp only: steer_towards_rounding_example nth_Cons_0 new_State_sel snd_conv)
  from t [of "new_State 50 50 None" "[new_State 50 50 None]" 0 "RRTPlanner_init free_world"] near
  have 2: "x (steer_towards rounded_sin (RRTPlanner_init free_world) [new_State 50 50 None] 0
           (new_State 50 50 None) 25) = x (new_State 50 50 None)"
    by blast
  have 3: "x (steer_towards rounded_sin (RRTPlanner_init free_world) [new_State 50 50 None] 0
           (new_State 2 64 None) 25) = 26"
    "y (steer_towards rounded_sin (RRTPlanner_init free_world) [new_State 50 50 None] 0
           (new_State 2 64 None) 25) = 58"
    "ray_point ([new_State 50 50 None] ! 0) (new_State 2 64 None) 25 = (26, 57)"
    by (simp_all only: steer_towards_rounding_example nth_Cons_0 new_State_sel)
  from 2 have 4: "x (steer_towards rounded_sin (RRTPlanner_init free_world) [new_State 50 50 None] 0
           (new_State 50 50 None) 25) = 50"
    by (simp only: new_State_sel)
  from accurate_rounded_sin r far 3 1 near 4 show ?thesis
    by (intro conjI)
qed

section \<open>The segment check\<close>

lemma path_checks_list_all:
  "path_checks fp self h s_from s_to is
     = list_all (\<lambda>i. state_is_free self (segment_sample fp self (h ! s_from) (h ! s_to) i)) is"
proof (induction "is")
  case Nil
  show ?case by simp
next
  case (Cons i "is")
  have "state_is_free self (new_State a b (Some s_from)) = state_is_free self (new_State a b None)"
    for a b
    by (rule state_is_free_coordinates) simp_all
  then show ?case
    using Cons.IH by (simp add: segment_sample_def sample_distance_def split_beta Let_def)
qed

lemma abs_le_straight_distance:
  "\<bar>real_of_int (x t - x s)\<bar> \<le> straight_distance s t"
  "\<bar>real_of_int (y t - y s)\<bar> \<le> straight_distance s t"
proof -
  have "sqrt ((real_of_int (x t - x s))\<^sup>2)
          \<le> sqrt ((real_of_int (x t - x s))\<^sup>2 + (real_of_int (y t - y s))\<^sup>2)"
    by (rule real_sqrt_le_mono) simp
  then show "\<bar>real_of_int (x t - x s)\<bar> \<le> straight_distance s t"
    by (simp add: straight_distance_def)
  have "sqrt ((real_of_int (y t - y s))\<^sup>2)
          \<le> sqrt ((real_of_int (x t - x s))\<^sup>2 + (real_of_int (y t - y s))\<^sup>2)"
    by (rule real_sqrt_le_mono) simp
  then show "\<bar>real_of_int (y t - y s)\<bar> \<le> straight_distance s t"
    by (simp add: straight_distance_def)
qed

lemma steer_error_mono:
  assumes "0 \<le> u" and "\<bar>r\<bar> \<le> R"
  shows "steer_error u s1 s2 H r \<le> steer_error u s1 s2 H R"
proof -
  have "\<bar>r\<bar> * (8 * \<bar>real_of_int (y s2 - y s1)\<bar> + 79) \<le> \<bar>R\<bar> * (8 * \<bar>real_of_int (y s2 - y s1)\<bar> + 79)"
    using assms(2) by (intro mult_right_mono) simp_all
  then show ?thesis
    unfolding steer_error_def using assms(1) by (intro mult_left_mono) simp_all
qed

lemma sample_error_split:
  "sample_error u s t H
     = steer_error u s t H (16 * straight_distance s t) + u * (15 * straight_distance s t)"
  using straight_distance_nonneg [of s t]
  by (simp add: sample_error_def steer_error_def algebra_simps)

lemma segment_sample_close:
  assumes acc: "accurate fp u" and i: "i < 10"
  shows "\<bar>real_of_int (x (segment_sample fp self s t i)) - fst (segment_point s t i)\<bar>
           < 1 + sample_error u s t (int (nrows (world self)))"
    and "\<bar>real_of_int (y (segment_sample fp self s t i)) - snd (segment_point s t i)\<bar>
           < 1 + sample_error u s t (int (nrows (world self)))"
proof -
  note u0 = accurateD(1) [OF acc] and u = accurate_small(2) [OF acc]
  define H where "H = int (nrows (world self))"
  define d where "d = straight_distance s t"
  define f where "f = real i / 10"
  define rho where "rho = sample_distance fp s t i"
  have d0: "0 \<le> d"
    by (simp add: d_def straight_distance_nonneg)
  have rho: "\<bar>rho - f * d\<bar> \<le> u * (15 * d)" and rho16: "\<bar>rho\<bar> \<le> 16 * d"
    unfolding rho_def f_def d_def by (rule sample_distance_close [OF acc u i])+
  have se: "steer_error u s t H rho \<le> steer_error u s t H (16 * d)"
    using u0 rho16 by (rule steer_error_mono)
  have split: "sample_error u s t H = steer_error u s t H (16 * d) + u * (15 * d)"
    unfolding d_def by (rule sample_error_split)
  have res: "x (segment_sample fp self s t i) = fst (steer_algorithm fp s t H rho)"
    "y (segment_sample fp self s t i) = snd (steer_algorithm fp s t H rho)"
    by (simp_all add: segment_sample_def rho_def H_def split_beta)
  have both: "\<bar>real_of_int (fst (steer_algorithm fp s t H rho)) - fst (segment_point s t i)\<bar>
           < 1 + sample_error u s t H
      \<and> \<bar>real_of_int (snd (steer_algorithm fp s t H rho)) - snd (segment_point s t i)\<bar>
           < 1 + sample_error u s t H"
  proof (cases "x t \<noteq> x s \<or> y t \<noteq> y s")
    case True
    then have dpos: "0 < d"
      unfolding d_def by (rule straight_distance_pos)
    note close = steer_algorithm_close [OF acc u True, of H rho]
    have shift: "\<bar>rho * c / d - f * c\<bar> \<le> u * (15 * d)" if c: "\<bar>c\<bar> \<le> d" for c
    proof -
      have e: "rho * c / d - f * c = (rho - f * d) * (c / d)"
        using dpos by (simp add: field_simps)
      have le1: "\<bar>c / d\<bar> \<le> 1"
        using c dpos by simp
      have "\<bar>(rho - f * d) * (c / d)\<bar> = \<bar>rho - f * d\<bar> * \<bar>c / d\<bar>"
        by (rule abs_mult)
      also have "\<dots> \<le> \<bar>rho - f * d\<bar> * 1"
        using le1 by (intro mult_left_mono) simp_all
      finally have "\<bar>(rho - f * d) * (c / d)\<bar> \<le> \<bar>rho - f * d\<bar>"
        by simp
      then have "\<bar>(rho - f * d) * (c / d)\<bar> \<le> u * (15 * d)"
        using rho by (rule order_trans)
      then show ?thesis
        by (simp only: e)
    qed
    have "\<bar>fst (ray_point s t rho) - fst (segment_point s t i)\<bar> \<le> u * (15 * d)"
      using shift [OF abs_le_straight_distance(1) [of t s, folded d_def]]
      by (simp add: ray_point_def segment_point_def f_def d_def)
    moreover have "\<bar>snd (ray_point s t rho) - snd (segment_point s t i)\<bar> \<le> u * (15 * d)"
      using shift [OF abs_le_straight_distance(2) [of t s, folded d_def]]
      by (simp add: ray_point_def segment_point_def f_def d_def)
    ultimately show ?thesis
      using close se unfolding split by linarith
  next
    case False
    then have same: "x t = x s" "y t = y s"
      by simp_all
    then have "d = 0"
      by (simp add: d_def straight_distance_def)
    with rho16 have r0: "rho = 0"
      by simp
    have "0 \<le> steer_error u s t H (16 * d)"
      using u0 by (rule steer_error_nonneg)
    moreover have "0 \<le> u * (15 * d)"
      using u0 d0 by simp
    moreover note steer_algorithm_close_vertical [OF acc u same(1), of H rho] se
    ultimately show ?thesis
      unfolding split using same by (simp add: segment_point_def r0; linarith)
  qed
  from both show "\<bar>real_of_int (x (segment_sample fp self s t i)) - fst (segment_point s t i)\<bar>
           < 1 + sample_error u s t (int (nrows (world self)))"
    and "\<bar>real_of_int (y (segment_sample fp self s t i)) - snd (segment_point s t i)\<bar>
           < 1 + sample_error u s t (int (nrows (world self)))"
    by (simp_all add: res H_def)
qed

text \<open>
  C3. With \<open>from\<close> free, \<open>path_is_obstacle_free\<close> returns what the specification of the
  segment check says: false when \<open>to\<close> is not free, and otherwise true exactly when all 10
  samples are free. The sample number \<open>i\<close> is the point that the steering function
  interpolates at the fraction \<open>i/10\<close> of the distance: each of its coordinates is less than
  1 plus the rounding error away from that of the point at the fraction \<open>i/10\<close> of the way
  from \<open>from\<close> to \<open>to\<close>.
\<close>

theorem path_is_obstacle_free_samples:
  assumes "state_is_free self (h ! s_from)" and "accurate fp u"
  shows "path_is_obstacle_free fp self h s_from s_to
           = Inr (isSegmentFree fp self (h ! s_from) (h ! s_to))
       \<and> (\<forall>i < 10.
            \<bar>real_of_int (x (segment_sample fp self (h ! s_from) (h ! s_to) i))
               - fst (segment_point (h ! s_from) (h ! s_to) i)\<bar>
              < 1 + sample_error u (h ! s_from) (h ! s_to) (int (nrows (world self)))
          \<and> \<bar>real_of_int (y (segment_sample fp self (h ! s_from) (h ! s_to) i))
               - snd (segment_point (h ! s_from) (h ! s_to) i)\<bar>
              < 1 + sample_error u (h ! s_from) (h ! s_to) (int (nrows (world self))))"
proof (intro conjI allI impI)
  show "path_is_obstacle_free fp self h s_from s_to
           = Inr (isSegmentFree fp self (h ! s_from) (h ! s_to))"
    using assms(1)
    by (simp add: path_is_obstacle_free_def isSegmentFree_def path_checks_list_all)
qed (rule segment_sample_close [OF assms(2)], assumption)+

lemma state_is_free_free_world: "state_is_free (RRTPlanner_init free_world) s"
  by (simp add: state_is_free_def RRTPlanner_init_def free_world_def list_all_iff)

lemma dot_world_free: "state_is_free (RRTPlanner_init dot_world) (new_State 8 8 None)"
  by (simp add: state_is_free_iff RRTPlanner_init_def dot_world_def)

lemma dot_world_occupied: "\<not> state_is_free (RRTPlanner_init dot_world) (new_State 7 7 None)"
  by (simp add: state_is_free_def RRTPlanner_init_def dot_world_def
        slice_indices_def slice_bound_def)

theorem path_is_obstacle_free_samples_witness:
  "state_is_free (RRTPlanner_init free_world) ([new_State 50 50 None, new_State 50 60 None] ! 0)
   \<and> accurate rounded_sin (1 / 2 ^ 52)
   \<and> path_is_obstacle_free rounded_sin (RRTPlanner_init free_world)
        [new_State 50 50 None, new_State 50 60 None] 0 1 = Inr True
   \<and> state_is_free (RRTPlanner_init dot_world) ([new_State 8 8 None, new_State 7 7 None] ! 0)
   \<and> path_is_obstacle_free rounded_sin (RRTPlanner_init dot_world)
        [new_State 8 8 None, new_State 7 7 None] 0 1 = Inr False"
proof -
  have a: "state_is_free (RRTPlanner_init free_world)
             ([new_State 50 50 None, new_State 50 60 None] ! 0)"
    by (rule state_is_free_free_world)
  have b: "state_is_free (RRTPlanner_init dot_world) ([new_State 8 8 None, new_State 7 7 None] ! 0)"
    by (simp add: dot_world_free)
  from path_is_obstacle_free_samples [OF a accurate_rounded_sin, of 1]
  have c: "path_is_obstacle_free rounded_sin (RRTPlanner_init free_world)
        [new_State 50 50 None, new_State 50 60 None] 0 1 = Inr True"
    by (simp add: isSegmentFree_def state_is_free_free_world list_all_iff)
  from path_is_obstacle_free_samples [OF b accurate_rounded_sin, of 1]
  have d: "path_is_obstacle_free rounded_sin (RRTPlanner_init dot_world)
        [new_State 8 8 None, new_State 7 7 None] 0 1 = Inr False"
    by (simp add: isSegmentFree_def dot_world_occupied)
  from a accurate_rounded_sin c b d show ?thesis
    by (intro conjI)
qed

section \<open>Following parent pointers\<close>

lemma follow_loop_None: "follow_loop h None path = Some path"
  by (simp add: follow_loop.simps)

lemma follow_loop_Some:
  "follow_loop h (Some a) path = follow_loop h (parent (h ! a)) (path @ [a])"
  by (subst follow_loop.simps) simp

lemma follow_loop_chain:
  assumes "parent_chain h a ps"
  shows "follow_loop h (Some a) path = Some (path @ a # ps)"
  using assms
proof (induction ps arbitrary: a path)
  case Nil
  then show ?case
    by (simp add: follow_loop_Some follow_loop_None)
next
  case (Cons p ps)
  from Cons.prems have p: "parent (h ! a) = Some p" and ps: "parent_chain h p ps"
    by simp_all
  have "follow_loop h (Some a) path = follow_loop h (Some p) (path @ [a])"
    by (simp only: follow_loop_Some p)
  also have "\<dots> = Some ((path @ [a]) @ p # ps)"
    using ps by (rule Cons.IH)
  finally show ?case
    by simp
qed

lemma follow_parent_pointers_chain:
  assumes "parent_chain h state ps"
  shows "follow_parent_pointers h state = Some (rev ps @ [state, state])"
  using follow_loop_chain [OF assms, of "[state]"]
  by (simp add: follow_parent_pointers_def)

text \<open>
  On a cycle of parent pointers the loop never ends: a state whose parent has it as parent
  is never left.
\<close>

lemma follow_loop_cycle_aux:
  assumes a: "parent (h ! a) = Some b" and b: "parent (h ! b) = Some a"
    and r: "follow_loop h c path = Some res"
  shows "c \<noteq> Some a \<and> c \<noteq> Some b"
proof -
  have "h = h \<longrightarrow> c \<noteq> Some a \<and> c \<noteq> Some b"
  proof (rule follow_loop.raw_induct
      [where P = "\<lambda>h' c p y. h' = h \<longrightarrow> c \<noteq> Some a \<and> c \<noteq> Some b", OF _ r])
    fix f :: "store \<Rightarrow> nat option \<Rightarrow> nat list \<Rightarrow> nat list option"
      and h' c' p' y'
    assume ih: "\<And>h'' c'' p'' y''. f h'' c'' p'' = Some y''
                  \<Longrightarrow> h'' = h \<longrightarrow> c'' \<noteq> Some a \<and> c'' \<noteq> Some b"
      and step: "(case c' of None \<Rightarrow> Some p' | Some k \<Rightarrow> f h' (parent (h' ! k)) (p' @ [k]))
                 = Some y'"
    show "h' = h \<longrightarrow> c' \<noteq> Some a \<and> c' \<noteq> Some b"
    proof
      assume h: "h' = h"
      show "c' \<noteq> Some a \<and> c' \<noteq> Some b"
      proof (cases c')
        case None
        then show ?thesis by simp
      next
        case (Some k)
        with step have "f h' (parent (h' ! k)) (p' @ [k]) = Some y'"
          by simp
        from ih [OF this] h have "parent (h ! k) \<noteq> Some a \<and> parent (h ! k) \<noteq> Some b"
          by simp
        with a b Some show ?thesis
          by auto
      qed
    qed
  qed
  then show ?thesis by simp
qed

lemma follow_loop_cycle:
  assumes "parent (h ! a) = Some b" and "parent (h ! b) = Some a"
  shows "follow_loop h (Some a) path = None"
proof (cases "follow_loop h (Some a) path")
  case None
  then show ?thesis .
next
  case (Some res)
  from follow_loop_cycle_aux [OF assms Some] show ?thesis
    by simp
qed

text \<open>
  C5. The path starts as \<open>[state]\<close> and the loop appends \<open>state\<close> again before it moves
  to the parent, so the terminal state is collected twice: for a root alone the result is
  the root twice, not once.
\<close>

theorem follow_parent_pointers_root_twice:
  "follow_parent_pointers [new_State 10 10 None] 0 = Some [0, 0]"
  by (simp add: follow_parent_pointers_def follow_loop_Some follow_loop_None new_State_def)

section \<open>One iteration of plan\<close>

lemma euclidean_distance_int:
  assumes acc: "accurate fp u" and k: "0 \<le> k" "(x t - x s)\<^sup>2 + (y t - y s)\<^sup>2 = k\<^sup>2"
  shows "real_of_int k * (103 / 100) \<le> r \<Longrightarrow> euclidean_distance fp s t \<le> r"
    and "real_of_int k * (103 / 100) < r \<Longrightarrow> euclidean_distance fp s t < r"
    and "r < real_of_int k * (97 / 100) \<Longrightarrow> \<not> euclidean_distance fp s t \<le> r"
    and "r \<le> real_of_int k * (97 / 100) \<Longrightarrow> \<not> euclidean_distance fp s t < r"
  using euclidean_distance_bounds [OF acc, of s t] straight_distance_eq [OF k]
  by simp_all

lemma path_free_world:
  "path_is_obstacle_free fp (RRTPlanner_init free_world) h a b = Inr True"
  by (simp add: path_is_obstacle_free_def state_is_free_free_world path_checks_list_all
        list_all_iff)

lemma sample_free_world_gen:
  assumes "a < 100" and "b < 100"
  shows "sample_state (RRTPlanner_init free_world) (gen_to a b) 0
           = Inr (new_State (int a) (int b) None, 2)"
  using assms
  by (simp add: sample_state_def randint_def RRTPlanner_init_def free_world_def gen_to_def)

lemma closest_single: "find_closest_state fp h [a] s = Some a"
  by (simp add: find_closest_state_def)

lemma steer_near_example:
  assumes "accurate fp u" and "yt = 50 \<or> yt = 58"
  shows "steer_towards fp self (new_State 50 50 None # hs) 0 (new_State 50 yt None) 30
           = new_State 50 yt (Some 0)"
proof -
  have "euclidean_distance fp (new_State 50 yt None) (new_State 50 50 None) \<le> 30"
    using assms(2) euclidean_distance_int(1) [OF assms(1), of 0 "new_State 50 50 None"
        "new_State 50 50 None" 30]
      euclidean_distance_int(1) [OF assms(1), of 8 "new_State 50 50 None"
        "new_State 50 58 None" 30]
    by auto
  then show ?thesis
    by (simp add: steer_towards_def)
qed

lemma steer_up_example:
  assumes "accurate fp u"
  shows "steer_towards fp (RRTPlanner_init free_world) (new_State 50 50 None # hs) 0
             (new_State 50 90 None) 30
           = new_State 50 80 (Some 0)"
proof -
  have far: "\<not> euclidean_distance fp (new_State 50 90 None) (new_State 50 50 None) \<le> 30"
    using euclidean_distance_int(3) [OF assms, of 40 "new_State 50 50 None"
        "new_State 50 90 None" 30]
    by simp
  have "steer_algorithm fp (new_State 50 50 None) (new_State 50 90 None) 100 (real_of_int 30)
          = (50, 50 + np_sign (90 - 50) * 30)"
    using steer_vertical_integer [OF assms, of "new_State 50 90 None" "new_State 50 50 None"
        100 30]
    by simp
  then show ?thesis
    using far
    by (simp add: steer_towards_def np_sign_def RRTPlanner_init_def free_world_def)
qed

lemma iteration_reached:
  assumes "accurate fp u"
  shows "plan_iteration fp (RRTPlanner_init free_world) (gen_to 50 58) (\<lambda>xs. xs) 1 30 5
     \<lparr>objs = two_states, tree_nodes = [0], rng = 0, plan_var = [0]\<rparr>
   = Some (Inr (reached_state, True))"
proof -
  have near: "euclidean_distance fp \<lparr>x = 50, y = 58, parent = Some 0, children = []\<rparr>
                \<lparr>x = 50, y = 60, parent = None, children = []\<rparr> < 5"
    using euclidean_distance_int(2) [OF assms, of 2] by simp
  show ?thesis
    by (simp add: plan_iteration_def sample_free_world_gen closest_single path_free_world
          two_states_def steer_near_example [OF assms];
        simp add: new_State_def near set_add_def State_eq_def reached_state_def
          follow_parent_pointers_def follow_loop_Some follow_loop_None)
qed

lemma iteration_exhausted:
  assumes "accurate fp u"
  shows "plan_iteration fp (RRTPlanner_init free_world) (gen_to 50 90) (\<lambda>xs. xs) 1 30 5
     \<lparr>objs = two_states, tree_nodes = [0], rng = 0, plan_var = [0]\<rparr>
   = Some (Inr (exhausted_state, False))"
proof -
  have far: "\<not> euclidean_distance fp \<lparr>x = 50, y = 80, parent = Some 0, children = []\<rparr>
                \<lparr>x = 50, y = 60, parent = None, children = []\<rparr> < 5"
    using euclidean_distance_int(4) [OF assms, of 20] by simp
  show ?thesis
    by (simp add: plan_iteration_def sample_free_world_gen closest_single path_free_world
          two_states_def steer_up_example [OF assms];
        simp add: new_State_def far set_add_def State_eq_def exhausted_state_def)
qed

lemma iteration_same_start_goal:
  assumes "accurate fp u"
  shows "plan_iteration fp (RRTPlanner_init free_world) (gen_to 50 90) (\<lambda>xs. xs) 1 30 5
     \<lparr>objs = same_states, tree_nodes = [0], rng = 0, plan_var = [0]\<rparr>
   = Some (Inr (same_state, False))"
proof -
  have far: "\<not> euclidean_distance fp \<lparr>x = 50, y = 80, parent = Some 0, children = []\<rparr>
                \<lparr>x = 50, y = 50, parent = None, children = []\<rparr> < 5"
    using euclidean_distance_int(4) [OF assms, of 30] by simp
  show ?thesis
    by (simp add: plan_iteration_def sample_free_world_gen closest_single path_free_world
          same_states_def steer_up_example [OF assms];
        simp add: new_State_def far set_add_def State_eq_def same_state_def)
qed

lemma iteration_duplicate:
  assumes "accurate fp u"
  shows "plan_iteration fp (RRTPlanner_init free_world) (gen_to 50 50) (\<lambda>xs. xs) 1 30 5
     \<lparr>objs = two_states, tree_nodes = [0], rng = 0, plan_var = [0]\<rparr>
   = Some (Inr (duplicate_state, False))"
proof -
  have far: "\<not> euclidean_distance fp \<lparr>x = 50, y = 50, parent = Some 0, children = []\<rparr>
                \<lparr>x = 50, y = 60, parent = None, children = []\<rparr> < 5"
    using euclidean_distance_int(4) [OF assms, of 10] by simp
  show ?thesis
    by (simp add: plan_iteration_def sample_free_world_gen closest_single path_free_world
          two_states_def steer_near_example [OF assms];
        simp add: new_State_def far set_add_def State_eq_def duplicate_state_def)
qed

text \<open>
  When the goal is the same object as the start, reaching it closes a cycle: the new state
  has the start as parent and the start gets the new state as parent, so the path
  extraction never ends and neither does the call.
\<close>

lemma iteration_same_object:
  assumes "accurate fp u"
  shows "plan_iteration fp (RRTPlanner_init free_world) (gen_to 50 50) (\<lambda>xs. xs) 0 30 5
     \<lparr>objs = [new_State 50 50 None], tree_nodes = [0], rng = 0, plan_var = [0]\<rparr>
   = None"
proof -
  have near: "euclidean_distance fp \<lparr>x = 50, y = 50, parent = Some 0, children = []\<rparr>
                \<lparr>x = 50, y = 50, parent = None, children = [Suc 0]\<rparr> < 5"
    using euclidean_distance_int(2) [OF assms, of 0] by simp
  have cycle: "follow_parent_pointers
                 [\<lparr>x = 50, y = 50, parent = Some (Suc 0), children = [Suc 0]\<rparr>,
                  \<lparr>x = 50, y = 50, parent = Some 0, children = []\<rparr>] 0 = None"
    by (simp add: follow_parent_pointers_def follow_loop_cycle [of _ 0 "Suc 0"])
  show ?thesis
    by (simp add: plan_iteration_def sample_free_world_gen closest_single path_free_world
          steer_near_example [OF assms];
        simp add: new_State_def near set_add_def State_eq_def cycle)
qed

lemma sample_state_rng:
  assumes "sample_state self gen k = Inr (s, k')"
  shows "k' = k + 2"
  using assms by (auto simp: sample_state_def split: sum.splits)

lemma plan_iteration_Inr:
  assumes "plan_iteration fp self gen order dest r1 r2 st = Some (Inr (st', brk))"
  obtains
    (blocked) s_rand s_nearest new where
      "sample_state self gen (rng st) = Inr (s_rand, rng st + 2)"
      "find_closest_state fp (objs st) (order (tree_nodes st)) s_rand = Some s_nearest"
      "new = steer_towards fp self (objs st) s_nearest s_rand r1"
      "path_is_obstacle_free fp self (objs st @ [new]) s_nearest (length (objs st)) = Inr False"
      "st' = st\<lparr>objs := objs st @ [new], rng := rng st + 2\<rparr>" "\<not> brk"
  | (added) s_rand s_nearest new h1 h2 where
      "sample_state self gen (rng st) = Inr (s_rand, rng st + 2)"
      "find_closest_state fp (objs st) (order (tree_nodes st)) s_rand = Some s_nearest"
      "new = steer_towards fp self (objs st) s_nearest s_rand r1"
      "h1 = objs st @ [new]"
      "path_is_obstacle_free fp self h1 s_nearest (length (objs st)) = Inr True"
      "h2 = h1[s_nearest := (h1 ! s_nearest)
                \<lparr>children := children (h1 ! s_nearest) @ [length (objs st)]\<rparr>]"
      "\<not> euclidean_distance fp (h2 ! length (objs st)) (h2 ! dest) < r2"
      "st' = st\<lparr>objs := h2, tree_nodes := set_add h1 (tree_nodes st) (length (objs st)),
                rng := rng st + 2\<rparr>" "\<not> brk"
  | (reached) s_rand s_nearest new h1 h2 h3 p where
      "sample_state self gen (rng st) = Inr (s_rand, rng st + 2)"
      "find_closest_state fp (objs st) (order (tree_nodes st)) s_rand = Some s_nearest"
      "new = steer_towards fp self (objs st) s_nearest s_rand r1"
      "h1 = objs st @ [new]"
      "path_is_obstacle_free fp self h1 s_nearest (length (objs st)) = Inr True"
      "h2 = h1[s_nearest := (h1 ! s_nearest)
                \<lparr>children := children (h1 ! s_nearest) @ [length (objs st)]\<rparr>]"
      "euclidean_distance fp (h2 ! length (objs st)) (h2 ! dest) < r2"
      "h3 = h2[dest := (h2 ! dest)\<lparr>parent := Some (length (objs st))\<rparr>]"
      "follow_parent_pointers h3 dest = Some p"
      "st' = \<lparr>objs = h3, tree_nodes = set_add h1 (tree_nodes st) (length (objs st)),
              rng = rng st + 2, plan_var = p\<rparr>" "brk"
proof -
  from assms obtain s_rand k where s: "sample_state self gen (rng st) = Inr (s_rand, k)"
    by (auto simp: plan_iteration_def split: sum.splits)
  then have k: "k = rng st + 2"
    by (rule sample_state_rng)
  from assms s obtain s_nearest where
    n: "find_closest_state fp (objs st) (order (tree_nodes st)) s_rand = Some s_nearest"
    by (auto simp: plan_iteration_def split: option.splits)
  define new where "new = steer_towards fp self (objs st) s_nearest s_rand r1"
  define h1 where "h1 = objs st @ [new]"
  define h2 where "h2 = h1[s_nearest := (h1 ! s_nearest)
                \<lparr>children := children (h1 ! s_nearest) @ [length (objs st)]\<rparr>]"
  define h3 where "h3 = h2[dest := (h2 ! dest)\<lparr>parent := Some (length (objs st))\<rparr>]"
  from assms s n obtain b where
    pf: "path_is_obstacle_free fp self h1 s_nearest (length (objs st)) = Inr b"
    by (auto simp: plan_iteration_def Let_def h1_def new_def split: sum.splits)
  show thesis
  proof (cases b)
    case False
    with assms s n pf have "st' = st\<lparr>objs := objs st @ [new], rng := rng st + 2\<rparr>" "\<not> brk"
      by (auto simp: plan_iteration_def Let_def h1_def new_def k)
    with s n pf False show thesis
      by (intro blocked [of s_rand s_nearest new]) (simp_all add: k new_def h1_def)
  next
    case True
    show thesis
    proof (cases "euclidean_distance fp (h2 ! length (objs st)) (h2 ! dest) < r2")
      case near: True
      with assms s n pf True obtain p where
        "follow_parent_pointers h3 dest = Some p"
        "st' = \<lparr>objs = h3, tree_nodes = set_add h1 (tree_nodes st) (length (objs st)),
              rng = rng st + 2, plan_var = p\<rparr>" "brk"
        by (auto simp: plan_iteration_def Let_def h1_def h2_def h3_def new_def k
              split: option.splits)
      with s n pf True near show thesis
        by (intro reached [of s_rand s_nearest new h1 h2 h3 p])
           (simp_all add: k new_def h1_def h2_def h3_def)
    next
      case far: False
      with assms s n pf True have
        "st' = st\<lparr>objs := h2, tree_nodes := set_add h1 (tree_nodes st) (length (objs st)),
                rng := rng st + 2\<rparr>" "\<not> brk"
        by (auto simp: plan_iteration_def Let_def h1_def h2_def new_def k)
      with s n pf True far show thesis
        by (intro added [of s_rand s_nearest new h1 h2])
           (simp_all add: k new_def h1_def h2_def)
    qed
  qed
qed

lemma parents_earlier_snoc:
  "parents_earlier h seen (ns @ [n]) \<longleftrightarrow>
     parents_earlier h seen ns
     \<and> (\<exists>p. parent (h ! n) = Some p \<and> p \<in> set seen \<union> set ns)"
  by (induction ns arbitrary: seen) (auto split: option.splits)

lemma parents_earlier_cong:
  assumes "\<And>n. n \<in> set ns \<Longrightarrow> parent (h' ! n) = parent (h ! n)"
  shows "parents_earlier h' seen ns = parents_earlier h seen ns"
  using assms by (induction ns arbitrary: seen) auto

lemma tree_invariant_cong:
  assumes "tree_invariant h start nodes" and "length h \<le> length h'"
    and "\<And>n. n \<in> set nodes \<Longrightarrow> parent (h' ! n) = parent (h ! n)"
  shows "tree_invariant h' start nodes"
proof (cases nodes)
  case Nil
  with assms(1) show ?thesis by (simp add: tree_invariant_def)
next
  case (Cons r rest)
  with assms(3) have "parents_earlier h' [start] rest = parents_earlier h [start] rest"
    by (intro parents_earlier_cong) simp
  moreover from assms(1,3) Cons have "parent (h' ! start) = None"
    by (simp add: tree_invariant_def)
  ultimately show ?thesis
    using assms(1,2) Cons by (auto simp: tree_invariant_def list_all_iff)
qed

lemma tree_invariant_snoc:
  assumes "tree_invariant h start nodes" and "n < length h" and "n \<notin> set nodes"
    and "parent (h ! n) = Some p" and "p \<in> set nodes"
  shows "tree_invariant h start (nodes @ [n])"
proof (cases nodes)
  case Nil
  with assms(1) show ?thesis by (simp add: tree_invariant_def)
next
  case (Cons r rest)
  with assms show ?thesis
    by (auto simp: tree_invariant_def parents_earlier_snoc)
qed

lemma find_closest_loop_member:
  assumes "find_closest_loop fp h s nodes m c = Some a"
  shows "a \<in> set nodes \<or> c = Some a"
  using assms
  by (induction nodes arbitrary: m c) (auto simp: Let_def split: if_splits)

lemma find_closest_state_member:
  assumes "find_closest_state fp h nodes s = Some a"
  shows "a \<in> set nodes"
  using find_closest_loop_member [of fp h s nodes None None a] assms
  by (simp add: find_closest_state_def)

lemma find_closest_loop_Some:
  "\<exists>a. find_closest_loop fp h s nodes m (Some c) = Some a"
  by (induction nodes arbitrary: m c) (auto simp: Let_def)

lemma find_closest_state_Some:
  assumes "nodes \<noteq> []"
  shows "\<exists>a. find_closest_state fp h nodes s = Some a"
  using assms find_closest_loop_Some
  by (cases nodes) (auto simp: find_closest_state_def Let_def)

lemma steer_towards_parent: "parent (steer_towards fp self h n s r) = Some n"
  by (simp add: steer_towards_def new_State_def split_beta)

lemma nth_list_update_if:
  "h[a := v] ! n = (if n = a \<and> a < length h then v else h ! n)"
  by (cases "a < length h") (auto simp: nth_list_update list_update_beyond)

lemma children_update_fields:
  "parent (h[a := (h ! a)\<lparr>children := c\<rparr>] ! n) = parent (h ! n)"
  "x (h[a := (h ! a)\<lparr>children := c\<rparr>] ! n) = x (h ! n)"
  "y (h[a := (h ! a)\<lparr>children := c\<rparr>] ! n) = y (h ! n)"
  by (simp_all add: nth_list_update_if)

lemma parent_update_fields:
  "x (h[a := (h ! a)\<lparr>parent := p\<rparr>] ! n) = x (h ! n)"
  "y (h[a := (h ! a)\<lparr>parent := p\<rparr>] ! n) = y (h ! n)"
  "n \<noteq> a \<Longrightarrow> parent (h[a := (h ! a)\<lparr>parent := p\<rparr>] ! n) = parent (h ! n)"
  "a < length h \<Longrightarrow> parent (h[a := (h ! a)\<lparr>parent := p\<rparr>] ! a) = p"
  by (simp_all add: nth_list_update_if)

section \<open>The tree through a run\<close>

lemma tree_invariant_members:
  assumes "tree_invariant h start nodes" and "n \<in> set nodes"
  shows "n < length h"
  using assms by (auto simp: tree_invariant_def list_all_iff split: list.splits)

lemma tree_invariant_nonempty:
  assumes "tree_invariant h start nodes"
  shows "nodes \<noteq> []" and "hd nodes = start" and "start \<in> set nodes"
  using assms by (auto simp: tree_invariant_def split: list.splits)

lemma set_add_cases:
  "set_add h nodes s = nodes \<or> set_add h nodes s = nodes @ [s]"
  by (simp add: set_add_def)

lemma parent_chain_cong:
  assumes "parent_chain h a ps"
    and "\<And>n. n \<in> set (a # ps) \<Longrightarrow> parent (h' ! n) = parent (h ! n)"
  shows "parent_chain h' a ps"
  using assms by (induction ps arbitrary: a) auto

lemma parents_earlier_chain:
  assumes "parents_earlier h seen ns"
    and "\<And>m. m \<in> set seen \<Longrightarrow> \<exists>ps. parent_chain h m ps \<and> set ps \<subseteq> set seen"
    and "n \<in> set ns"
  shows "\<exists>ps. parent_chain h n ps \<and> set ps \<subseteq> set seen \<union> set ns"
  using assms
proof (induction ns arbitrary: seen)
  case Nil
  then show ?case by simp
next
  case (Cons a ns)
  from Cons.prems(1) obtain p where p: "parent (h ! a) = Some p" "p \<in> set seen"
    and rest: "parents_earlier h (seen @ [a]) ns"
    by (auto split: option.splits)
  from Cons.prems(2) [OF p(2)] obtain ps where ps: "parent_chain h p ps" "set ps \<subseteq> set seen"
    by blast
  with p have a: "parent_chain h a (p # ps)" "set (p # ps) \<subseteq> set seen"
    by simp_all
  show ?case
  proof (cases "n = a")
    case True
    with a show ?thesis
      by (intro exI [of _ "p # ps"]) auto
  next
    case False
    with Cons.prems(3) have n: "n \<in> set ns"
      by simp
    have "\<exists>ps. parent_chain h m ps \<and> set ps \<subseteq> set (seen @ [a])" if "m \<in> set (seen @ [a])" for m
    proof (cases "m = a")
      case True
      with a show ?thesis
        by (intro exI [of _ "p # ps"]) auto
    next
      case False
      with that have "m \<in> set seen" by simp
      from Cons.prems(2) [OF this] show ?thesis by auto
    qed
    from Cons.IH [OF rest this n] show ?thesis
      by auto
  qed
qed

lemma tree_invariant_chain:
  assumes "tree_invariant h start nodes" and "n \<in> set nodes"
  shows "\<exists>ps. parent_chain h n ps \<and> set ps \<subseteq> set nodes"
proof (cases nodes)
  case Nil
  with assms(2) show ?thesis by simp
next
  case (Cons r rest)
  with assms(1) have r: "r = start" and root: "parent (h ! start) = None"
    and pe: "parents_earlier h [start] rest"
    by (simp_all add: tree_invariant_def)
  show ?thesis
  proof (cases "n = start")
    case True
    with root show ?thesis
      by (intro exI [of _ "[]"]) simp
  next
    case False
    with assms(2) Cons r have n: "n \<in> set rest" by simp
    have "\<exists>ps. parent_chain h m ps \<and> set ps \<subseteq> set [start]" if "m \<in> set [start]" for m
      using that root by (intro exI [of _ "[]"]) simp
    from parents_earlier_chain [OF pe this n] Cons r show ?thesis
      by auto
  qed
qed

lemma run_inv_step:
  assumes inv: "run_inv start dest st"
    and ord: "\<And>xs. set (order xs) \<subseteq> set xs"
    and step: "plan_iteration fp self gen order dest r1 r2 st = Some (Inr (st', brk))"
  shows "run_inv start dest st'"
proof -
  from inv have d: "dest < length (objs st)"
    and t: "tree_invariant (objs st) start (tree_nodes st)"
    and nd: "dest \<notin> set (tree_nodes st)"
    by (simp_all add: run_inv_def)
  have mem: "n < length (objs st)" if "n \<in> set (tree_nodes st)" for n
    using t that by (rule tree_invariant_members)
  have fresh: "length (objs st) \<notin> set (tree_nodes st)"
    using mem by blast
  \<comment> \<open>the tree after a successful path check, over any store that keeps the parents\<close>
  have grow: "tree_invariant h' start (set_add h1 (tree_nodes st) (length (objs st)))"
    if n: "s_nearest \<in> set (tree_nodes st)"
      and len: "length h' = Suc (length (objs st))"
      and old: "\<And>n. n \<in> set (tree_nodes st) \<Longrightarrow> parent (h' ! n) = parent (objs st ! n)"
      and new: "parent (h' ! length (objs st)) = Some s_nearest"
    for h' h1 s_nearest
  proof -
    have base: "tree_invariant h' start (tree_nodes st)"
    proof (rule tree_invariant_cong [OF t])
      show "length (objs st) \<le> length h'"
        by (simp add: len)
    qed (rule old)
    show ?thesis
    proof (cases "set_add h1 (tree_nodes st) (length (objs st)) = tree_nodes st")
      case True
      with base show ?thesis by simp
    next
      case False
      then have "set_add h1 (tree_nodes st) (length (objs st))
                 = tree_nodes st @ [length (objs st)]"
        using set_add_cases by blast
      moreover have "tree_invariant h' start (tree_nodes st @ [length (objs st)])"
        using base _ fresh new n by (rule tree_invariant_snoc) (simp add: len)
      ultimately show ?thesis by simp
    qed
  qed
  have notin: "dest \<notin> set (set_add h1 (tree_nodes st) (length (objs st)))" for h1
    using nd d set_add_cases [of h1 "tree_nodes st" "length (objs st)"] by auto
  from step show ?thesis
  proof (cases rule: plan_iteration_Inr)
    case (blocked s_rand s_nearest new)
    have "tree_invariant (objs st @ [new]) start (tree_nodes st)"
      using t by (rule tree_invariant_cong) (auto simp: nth_append dest: mem)
    with d nd blocked show ?thesis
      by (simp add: run_inv_def)
  next
    case (added s_rand s_nearest new h1 h2)
    have n: "s_nearest \<in> set (tree_nodes st)"
      using find_closest_state_member [OF added(2)] ord by blast
    have "tree_invariant h2 start (set_add h1 (tree_nodes st) (length (objs st)))"
    proof (rule grow [OF n])
      show "length h2 = Suc (length (objs st))"
        by (simp add: added(4,6))
      show "parent (h2 ! n) = parent (objs st ! n)" if "n \<in> set (tree_nodes st)" for n
        using mem [OF that]
        by (simp add: added(4,6) nth_list_update_if nth_append)
      show "parent (h2 ! length (objs st)) = Some s_nearest"
        using mem [OF n]
        by (simp add: added(3,4,6) nth_list_update_if steer_towards_parent)
    qed
    with d notin show ?thesis
      by (simp add: run_inv_def added(4,6,8))
  next
    case (reached s_rand s_nearest new h1 h2 h3 p)
    have n: "s_nearest \<in> set (tree_nodes st)"
      using find_closest_state_member [OF reached(2)] ord by blast
    have "tree_invariant h3 start (set_add h1 (tree_nodes st) (length (objs st)))"
    proof (rule grow [OF n])
      show "length h3 = Suc (length (objs st))"
        by (simp add: reached(4,6,8))
      show "parent (h3 ! n) = parent (objs st ! n)" if "n \<in> set (tree_nodes st)" for n
      proof -
        from that nd have "n \<noteq> dest" by blast
        then show ?thesis
          using mem [OF that]
          by (simp add: reached(4,6,8) nth_list_update_if nth_append)
      qed
      from d mem [OF n] show "parent (h3 ! length (objs st)) = Some s_nearest"
        by (simp add: reached(3,4,6,8) nth_list_update_if steer_towards_parent)
    qed
    with d notin show ?thesis
      by (simp add: run_inv_def reached(4,6,8,10))
  qed
qed

lemma plan_loop_Suc_Inr:
  assumes "plan_loop fp self gen order dest r1 r2 (Suc n) st = Some (Inr (st', brk))"
  obtains (stop) "plan_iteration fp self gen order dest r1 r2 st = Some (Inr (st', True))" "brk"
  | (continue) st1 where
      "plan_iteration fp self gen order dest r1 r2 st = Some (Inr (st1, False))"
      "plan_loop fp self gen order dest r1 r2 n st1 = Some (Inr (st', brk))"
  using assms by (auto split: option.splits sum.splits if_splits)

lemma run_inv_init:
  assumes "start < length h" and "dest < length h" and "start \<noteq> dest"
    and "parent (h ! start) = None"
  shows "run_inv start dest \<lparr>objs = h, tree_nodes = [start], rng = 0, plan_var = [start]\<rparr>"
  using assms by (auto simp: run_inv_def tree_invariant_def)

lemma run_inv_loop:
  assumes "\<And>xs. set (order xs) \<subseteq> set xs"
    and "run_inv start dest st"
    and "plan_loop fp self gen order dest r1 r2 n st = Some (Inr (st', brk))"
  shows "run_inv start dest st'"
  using assms(2,3)
proof (induction n arbitrary: st)
  case 0
  then show ?case by simp
next
  case (Suc n)
  from Suc.prems(2) show ?case
  proof (cases rule: plan_loop_Suc_Inr)
    case stop
    with Suc.prems(1) assms(1) show ?thesis
      by (blast intro: run_inv_step)
  next
    case (continue st1)
    from Suc.prems(1) assms(1) continue(1) have "run_inv start dest st1"
      by (blast intro: run_inv_step)
    then show ?thesis
      using continue(2) by (rule Suc.IH)
  qed
qed

lemma plan_loop_add:
  "plan_loop fp self gen order dest r1 r2 (k + m) st =
     (case plan_loop fp self gen order dest r1 r2 k st of
        Some (Inr (st', False)) \<Rightarrow> plan_loop fp self gen order dest r1 r2 m st'
      | r \<Rightarrow> r)"
proof (induction k arbitrary: st)
  case 0
  show ?case by simp
next
  case (Suc k)
  show ?case
    by (simp add: Suc.IH split: option.splits sum.splits bool.splits)
qed

text \<open>
  C8, as the code has it. The start has no parent and the goal is another object. \<open>st\<close> is
  the state after any number of iterations of a run and \<open>st'\<close> the state after one more.
  In both, the root has no parent and every other member has its parent among the members
  inserted before it; so the parents of every member lead, through members, to a state
  without a parent, and the structure has no cycle. No member is ever removed. The
  iteration creates one state, by steering from the closest member toward the sample; the
  set gains this state, and only it, exactly when the path to it is free and no member has
  its coordinates; otherwise the set is unchanged.
\<close>

theorem tree_grows_by_insertion:
  assumes "start_state < length h" and "dest_state < length h"
    and "start_state \<noteq> dest_state" and "parent (h ! start_state) = None"
    and "\<And>xs. set (order xs) \<subseteq> set xs"
    and "plan_loop fp self gen order dest_state r1 r2 n
           \<lparr>objs = h, tree_nodes = [start_state], rng = 0, plan_var = [start_state]\<rparr>
         = Some (Inr (st, False))"
    and "plan_iteration fp self gen order dest_state r1 r2 st = Some (Inr (st', brk))"
  shows "tree_invariant (objs st) start_state (tree_nodes st)
       \<and> tree_invariant (objs st') start_state (tree_nodes st')
       \<and> (\<forall>m \<in> set (tree_nodes st').
            \<exists>ps. parent_chain (objs st') m ps \<and> set ps \<subseteq> set (tree_nodes st'))
       \<and> (\<exists>s_rand s_nearest new.
            sample_state self gen (rng st) = Inr (s_rand, rng st + 2)
            \<and> find_closest_state fp (objs st) (order (tree_nodes st)) s_rand = Some s_nearest
            \<and> s_nearest \<in> set (tree_nodes st)
            \<and> new = steer_towards fp self (objs st) s_nearest s_rand r1
            \<and> length (objs st') = Suc (length (objs st))
            \<and> x (objs st' ! length (objs st)) = x new
            \<and> y (objs st' ! length (objs st)) = y new
            \<and> parent (objs st' ! length (objs st)) = Some s_nearest
            \<and> tree_nodes st' =
                (if path_is_obstacle_free fp self (objs st @ [new]) s_nearest (length (objs st))
                      = Inr True
                    \<and> \<not> list_ex (\<lambda>m. State_eq (objs st ! m) new) (tree_nodes st)
                 then tree_nodes st @ [length (objs st)] else tree_nodes st))"
proof -
  have inv: "run_inv start_state dest_state st"
    using assms(5) run_inv_init [OF assms(1-4)] assms(6) by (rule run_inv_loop)
  then have inv': "run_inv start_state dest_state st'"
    using assms(5,7) by (rule run_inv_step)
  have t: "tree_invariant (objs st) start_state (tree_nodes st)"
    and d: "dest_state < length (objs st)"
    using inv by (simp_all add: run_inv_def)
  have t': "tree_invariant (objs st') start_state (tree_nodes st')"
    using inv' by (simp add: run_inv_def)
  have mem: "m < length (objs st)" if "m \<in> set (tree_nodes st)" for m
    using t that by (rule tree_invariant_members)
  have chains: "\<forall>m \<in> set (tree_nodes st').
            \<exists>ps. parent_chain (objs st') m ps \<and> set ps \<subseteq> set (tree_nodes st')"
    using tree_invariant_chain [OF t'] by blast
  have eq: "list_ex (\<lambda>m. State_eq ((objs st @ [new]) ! m) new) (tree_nodes st)
            = list_ex (\<lambda>m. State_eq (objs st ! m) new) (tree_nodes st)" for new
    using mem by (auto simp: list_ex_iff nth_append)
  have grown: "set_add (objs st @ [new]) (tree_nodes st) (length (objs st))
      = (if path_is_obstacle_free fp self (objs st @ [new]) s_nearest (length (objs st))
              = Inr True
            \<and> \<not> list_ex (\<lambda>m. State_eq (objs st ! m) new) (tree_nodes st)
         then tree_nodes st @ [length (objs st)] else tree_nodes st)"
    if "path_is_obstacle_free fp self (objs st @ [new]) s_nearest (length (objs st)) = Inr True"
    for new s_nearest
    using that by (simp add: set_add_def eq)
  have step: "\<exists>s_rand s_nearest new.
            sample_state self gen (rng st) = Inr (s_rand, rng st + 2)
            \<and> find_closest_state fp (objs st) (order (tree_nodes st)) s_rand = Some s_nearest
            \<and> s_nearest \<in> set (tree_nodes st)
            \<and> new = steer_towards fp self (objs st) s_nearest s_rand r1
            \<and> length (objs st') = Suc (length (objs st))
            \<and> x (objs st' ! length (objs st)) = x new
            \<and> y (objs st' ! length (objs st)) = y new
            \<and> parent (objs st' ! length (objs st)) = Some s_nearest
            \<and> tree_nodes st' =
                (if path_is_obstacle_free fp self (objs st @ [new]) s_nearest (length (objs st))
                      = Inr True
                    \<and> \<not> list_ex (\<lambda>m. State_eq (objs st ! m) new) (tree_nodes st)
                 then tree_nodes st @ [length (objs st)] else tree_nodes st)"
    using assms(7)
  proof (cases rule: plan_iteration_Inr)
    case (blocked s_rand s_nearest new)
    have n: "s_nearest \<in> set (tree_nodes st)"
      using find_closest_state_member [OF blocked(2)] assms(5) by blast
    have "length (objs st') = Suc (length (objs st))"
      "x (objs st' ! length (objs st)) = x new" "y (objs st' ! length (objs st)) = y new"
      "parent (objs st' ! length (objs st)) = Some s_nearest"
      by (simp_all add: blocked(5)) (simp add: blocked(3) steer_towards_parent)
    moreover have "tree_nodes st' =
                (if path_is_obstacle_free fp self (objs st @ [new]) s_nearest (length (objs st))
                      = Inr True
                    \<and> \<not> list_ex (\<lambda>m. State_eq (objs st ! m) new) (tree_nodes st)
                 then tree_nodes st @ [length (objs st)] else tree_nodes st)"
      by (simp add: blocked(4,5))
    ultimately show ?thesis
      using blocked(1,2,3) n by blast
  next
    case (added s_rand s_nearest new h1 h2)
    have n: "s_nearest \<in> set (tree_nodes st)"
      using find_closest_state_member [OF added(2)] assms(5) by blast
    have "length (objs st') = Suc (length (objs st))"
      "x (objs st' ! length (objs st)) = x new" "y (objs st' ! length (objs st)) = y new"
      "parent (objs st' ! length (objs st)) = Some s_nearest"
      using mem [OF n]
      by (simp_all add: added(4,6,8) nth_list_update_if)
         (simp add: added(3) steer_towards_parent)
    moreover have "tree_nodes st' =
                (if path_is_obstacle_free fp self (objs st @ [new]) s_nearest (length (objs st))
                      = Inr True
                    \<and> \<not> list_ex (\<lambda>m. State_eq (objs st ! m) new) (tree_nodes st)
                 then tree_nodes st @ [length (objs st)] else tree_nodes st)"
      using grown [of new s_nearest] added(5) by (simp add: added(4,8))
    ultimately show ?thesis
      using added(1,2,3) n by blast
  next
    case (reached s_rand s_nearest new h1 h2 h3 p)
    have n: "s_nearest \<in> set (tree_nodes st)"
      using find_closest_state_member [OF reached(2)] assms(5) by blast
    have "length (objs st') = Suc (length (objs st))"
      "x (objs st' ! length (objs st)) = x new" "y (objs st' ! length (objs st)) = y new"
      "parent (objs st' ! length (objs st)) = Some s_nearest"
      using mem [OF n] d
      by (simp_all add: reached(4,6,8,10) nth_list_update_if)
         (simp add: reached(3) steer_towards_parent)
    moreover have "tree_nodes st' =
                (if path_is_obstacle_free fp self (objs st @ [new]) s_nearest (length (objs st))
                      = Inr True
                    \<and> \<not> list_ex (\<lambda>m. State_eq (objs st ! m) new) (tree_nodes st)
                 then tree_nodes st @ [length (objs st)] else tree_nodes st)"
      using grown [of new s_nearest] reached(5) by (simp add: reached(4,10))
    ultimately show ?thesis
      using reached(1,2,3) n by blast
  qed
  from t t' chains step show ?thesis
    by (intro conjI)
qed

text \<open>
  A successful insertion need not grow the set. With the start at (50, 50) and the sample
  (50, 50), the new state has the coordinates of the start: the path to it is free, it is
  appended to the children of the start, and \<open>tree_nodes.add\<close> finds an equal member and
  adds nothing. The set has one member before and after.
\<close>

theorem insertion_of_equal_state_counterexample:
  "path_is_obstacle_free exact_float (RRTPlanner_init free_world)
     (two_states @ [new_State 50 50 (Some 0)]) 0 2 = Inr True
   \<and> plan_iteration exact_float (RRTPlanner_init free_world) (gen_to 50 50) (\<lambda>xs. xs) 1 30 5
        \<lparr>objs = two_states, tree_nodes = [0], rng = 0, plan_var = [0]\<rparr>
      = Some (Inr (duplicate_state, False))
   \<and> children (objs duplicate_state ! 0) = [2]
   \<and> tree_nodes duplicate_state = [0]
   \<and> length [0::nat] \<noteq> length [0::nat] + 1"
  by (intro conjI path_free_world iteration_duplicate [OF accurate_exact_float])
     (simp_all add: duplicate_state_def)

theorem tree_grows_by_insertion_witness:
  "0 < length two_states \<and> 1 < length two_states \<and> (0::nat) \<noteq> 1
   \<and> parent (two_states ! 0) = None
   \<and> plan_loop exact_float (RRTPlanner_init free_world) (gen_to 50 90) (\<lambda>xs. xs) 1 30 5 0
        \<lparr>objs = two_states, tree_nodes = [0], rng = 0, plan_var = [0]\<rparr>
      = Some (Inr (\<lparr>objs = two_states, tree_nodes = [0], rng = 0, plan_var = [0]\<rparr>, False))
   \<and> plan_iteration exact_float (RRTPlanner_init free_world) (gen_to 50 90) (\<lambda>xs. xs) 1 30 5
        \<lparr>objs = two_states, tree_nodes = [0], rng = 0, plan_var = [0]\<rparr>
      = Some (Inr (exhausted_state, False))
   \<and> tree_invariant two_states 0 [0]
   \<and> tree_invariant (objs exhausted_state) 0 (tree_nodes exhausted_state)
   \<and> tree_nodes exhausted_state = [0, 2]"
proof -
  have a: "0 < length two_states" "1 < length two_states" "(0::nat) \<noteq> 1"
    "parent (two_states ! 0) = None"
    by (simp_all add: two_states_def)
  have b: "plan_loop exact_float (RRTPlanner_init free_world) (gen_to 50 90) (\<lambda>xs. xs) 1 30 5 0
        \<lparr>objs = two_states, tree_nodes = [0], rng = 0, plan_var = [0]\<rparr>
      = Some (Inr (\<lparr>objs = two_states, tree_nodes = [0], rng = 0, plan_var = [0]\<rparr>, False))"
    by simp
  note c = iteration_exhausted [OF accurate_exact_float]
  have o: "set ((\<lambda>xs. xs) xs) \<subseteq> set xs" for xs :: "nat list"
    by simp
  from tree_grows_by_insertion [OF a o b c]
  have "tree_invariant two_states 0 [0]"
    "tree_invariant (objs exhausted_state) 0 (tree_nodes exhausted_state)"
    by simp_all
  moreover have "tree_nodes exhausted_state = [0, 2]"
    by (simp add: exhausted_state_def)
  ultimately show ?thesis
    using a b c by (intro conjI)
qed

lemma euclidean_distance_coordinates:
  assumes "x s = x s'" "y s = y s'" "x t = x t'" "y t = y t'"
  shows "euclidean_distance fp s t = euclidean_distance fp s' t'"
  using assms by (simp add: euclidean_distance_def)

lemma plan_iteration_dest:
  assumes d: "dest < length (objs st)"
    and step: "plan_iteration fp self gen order dest r1 r2 st = Some (Inr (st', brk))"
  shows "length (objs st') = Suc (length (objs st))"
    and "rng st' = rng st + 2"
    and "x (objs st' ! dest) = x (objs st ! dest)"
    and "y (objs st' ! dest) = y (objs st ! dest)"
    and "\<not> brk \<Longrightarrow> parent (objs st' ! dest) = parent (objs st ! dest)"
    and "brk \<Longrightarrow> parent (objs st' ! dest) = Some (length (objs st))"
    and "brk \<Longrightarrow> euclidean_distance fp (objs st' ! length (objs st)) (objs st' ! dest) < r2"
proof -
  have all: "length (objs st') = Suc (length (objs st)) \<and> rng st' = rng st + 2
     \<and> x (objs st' ! dest) = x (objs st ! dest) \<and> y (objs st' ! dest) = y (objs st ! dest)
     \<and> (\<not> brk \<longrightarrow> parent (objs st' ! dest) = parent (objs st ! dest))
     \<and> (brk \<longrightarrow> parent (objs st' ! dest) = Some (length (objs st))
           \<and> euclidean_distance fp (objs st' ! length (objs st)) (objs st' ! dest) < r2)"
    using step
  proof (cases rule: plan_iteration_Inr)
    case (blocked s_rand s_nearest new)
    with d show ?thesis
      by (simp add: nth_append)
  next
    case (added s_rand s_nearest new h1 h2)
    from d show ?thesis
      by (simp add: added(4,6,8,9) nth_list_update_if nth_append)
  next
    case (reached s_rand s_nearest new h1 h2 h3 p)
    have "euclidean_distance fp (h3 ! length (objs st)) (h3 ! dest)
          = euclidean_distance fp (h2 ! length (objs st)) (h2 ! dest)"
      by (rule euclidean_distance_coordinates) (simp_all add: reached(8) nth_list_update_if)
    with reached(7) have "euclidean_distance fp (h3 ! length (objs st)) (h3 ! dest) < r2"
      by simp
    moreover from d have "x (h3 ! dest) = x (objs st ! dest)" "y (h3 ! dest) = y (objs st ! dest)"
      "parent (h3 ! dest) = Some (length (objs st))" "length h3 = Suc (length (objs st))"
      by (simp_all add: reached(4,6,8) nth_list_update_if nth_append)
    ultimately show ?thesis
      by (simp add: reached(10,11))
  qed
  from all show "length (objs st') = Suc (length (objs st))"
    and "rng st' = rng st + 2"
    and "x (objs st' ! dest) = x (objs st ! dest)"
    and "y (objs st' ! dest) = y (objs st ! dest)"
    and "\<not> brk \<Longrightarrow> parent (objs st' ! dest) = parent (objs st ! dest)"
    and "brk \<Longrightarrow> parent (objs st' ! dest) = Some (length (objs st))"
    and "brk \<Longrightarrow> euclidean_distance fp (objs st' ! length (objs st)) (objs st' ! dest) < r2"
    by simp_all
qed

lemma plan_loop_dest:
  assumes "dest < length (objs st)"
    and "plan_loop fp self gen order dest r1 r2 n st = Some (Inr (st', brk))"
  shows "length (objs st) \<le> length (objs st') \<and> rng st \<le> rng st'
       \<and> x (objs st' ! dest) = x (objs st ! dest) \<and> y (objs st' ! dest) = y (objs st ! dest)
       \<and> (if brk
          then \<exists>s_new. length (objs st) \<le> s_new \<and> s_new < length (objs st')
                 \<and> parent (objs st' ! dest) = Some s_new
                 \<and> euclidean_distance fp (objs st' ! s_new) (objs st' ! dest) < r2
          else parent (objs st' ! dest) = parent (objs st ! dest)
                 \<and> rng st' = rng st + 2 * n \<and> length (objs st') = length (objs st) + n)"
  using assms
proof (induction n arbitrary: st)
  case 0
  then show ?case by simp
next
  case (Suc n)
  from Suc.prems(2) show ?case
  proof (cases rule: plan_loop_Suc_Inr)
    case stop
    note it = plan_iteration_dest [OF Suc.prems(1) stop(1)]
    have "length (objs st) \<le> length (objs st) \<and> length (objs st) < length (objs st')
          \<and> parent (objs st' ! dest) = Some (length (objs st))
          \<and> euclidean_distance fp (objs st' ! length (objs st)) (objs st' ! dest) < r2"
      using it(1,6,7) by simp
    then have "\<exists>s_new. length (objs st) \<le> s_new \<and> s_new < length (objs st')
                 \<and> parent (objs st' ! dest) = Some s_new
                 \<and> euclidean_distance fp (objs st' ! s_new) (objs st' ! dest) < r2"
      by (rule exI)
    with it(1-4) stop(2) show ?thesis
      by simp
  next
    case (continue st1)
    note it = plan_iteration_dest [OF Suc.prems(1) continue(1)]
    from Suc.prems(1) it(1) have d1: "dest < length (objs st1)"
      by simp
    note ih = Suc.IH [OF d1 continue(2)]
    show ?thesis
    proof (cases brk)
      case True
      with ih obtain s_new where "length (objs st1) \<le> s_new" "s_new < length (objs st')"
        "parent (objs st' ! dest) = Some s_new"
        "euclidean_distance fp (objs st' ! s_new) (objs st' ! dest) < r2"
        by auto
      with it(1) have "length (objs st) \<le> s_new \<and> s_new < length (objs st')
                 \<and> parent (objs st' ! dest) = Some s_new
                 \<and> euclidean_distance fp (objs st' ! s_new) (objs st' ! dest) < r2"
        by simp
      then have "\<exists>s_new. length (objs st) \<le> s_new \<and> s_new < length (objs st')
                 \<and> parent (objs st' ! dest) = Some s_new
                 \<and> euclidean_distance fp (objs st' ! s_new) (objs st' ! dest) < r2"
        by (rule exI)
      with ih it(1-4) True show ?thesis
        by simp
    next
      case False
      with ih it show ?thesis
        by simp
    qed
  qed
qed

lemma plan_Inr:
  assumes "plan fp self gen order h start_state dest_state n r1 r2 = Some (Inr res)"
  shows "state_is_free self (h ! start_state)" and "state_is_free self (h ! dest_state)"
    and "plan_loop fp self gen order dest_state r1 r2 n
           \<lparr>objs = h, tree_nodes = [start_state], rng = 0, plan_var = [start_state]\<rparr>
         = Some (Inr (final res, reached res))"
    and "returned res = [start_state]"
  using assms
  by (auto simp: plan_def split: if_splits option.splits sum.splits)

lemma plan_iteration_goal:
  assumes d: "dest < length (objs st)"
    and step: "plan_iteration fp self gen order dest r1 r2 st = Some (Inr (st', brk))"
  shows "\<exists>s_rand s_nearest new.
           sample_state self gen (rng st) = Inr (s_rand, rng st + 2)
           \<and> find_closest_state fp (objs st) (order (tree_nodes st)) s_rand = Some s_nearest
           \<and> new = steer_towards fp self (objs st) s_nearest s_rand r1
           \<and> (if path_is_obstacle_free fp self (objs st @ [new]) s_nearest (length (objs st))
                   = Inr True
                 \<and> euclidean_distance fp new (objs st ! dest) < r2
               then brk \<and> parent (objs st' ! dest) = Some (length (objs st))
                    \<and> x (objs st' ! length (objs st)) = x new
                    \<and> y (objs st' ! length (objs st)) = y new
               else \<not> brk \<and> parent (objs st' ! dest) = parent (objs st ! dest))"
  using step
proof (cases rule: plan_iteration_Inr)
  case (blocked s_rand s_nearest new)
  have "\<not> brk \<and> parent (objs st' ! dest) = parent (objs st ! dest)"
    using d blocked(5,6) by (simp add: nth_append)
  with blocked(1-4) show ?thesis
    by (intro exI [of _ s_rand] exI [of _ s_nearest] exI [of _ new]) simp
next
  case (added s_rand s_nearest new h1 h2)
  have h2: "x (h2 ! k) = x (h1 ! k)" "y (h2 ! k) = y (h1 ! k)"
    "parent (h2 ! k) = parent (h1 ! k)" for k
    by (simp_all only: added(6) children_update_fields)
  have h1: "h1 ! length (objs st) = new" "h1 ! dest = objs st ! dest"
    using d by (simp_all add: added(4) nth_append)
  have "euclidean_distance fp (h2 ! length (objs st)) (h2 ! dest)
        = euclidean_distance fp new (objs st ! dest)"
    by (intro euclidean_distance_coordinates) (simp_all only: h2 h1)
  with added(7) have far: "\<not> euclidean_distance fp new (objs st ! dest) < r2"
    by simp
  have "\<not> brk \<and> parent (objs st' ! dest) = parent (objs st ! dest)"
    using added(9) by (simp add: added(8) h2 h1)
  with added(1-3) far show ?thesis
    by (intro exI [of _ s_rand] exI [of _ s_nearest] exI [of _ new]) simp
next
  case (reached s_rand s_nearest new h1 h2 h3 p)
  have h2: "x (h2 ! k) = x (h1 ! k)" "y (h2 ! k) = y (h1 ! k)" for k
    by (simp_all only: reached(6) children_update_fields)
  have h3: "x (h3 ! k) = x (h2 ! k)" "y (h3 ! k) = y (h2 ! k)" for k
    by (simp_all only: reached(8) parent_update_fields)
  have h1: "h1 ! length (objs st) = new" "h1 ! dest = objs st ! dest"
    using d by (simp_all add: reached(4) nth_append)
  have "euclidean_distance fp (h2 ! length (objs st)) (h2 ! dest)
        = euclidean_distance fp new (objs st ! dest)"
    by (intro euclidean_distance_coordinates) (simp_all only: h2 h1)
  with reached(7) have near: "euclidean_distance fp new (objs st ! dest) < r2"
    by simp
  have path: "path_is_obstacle_free fp self (objs st @ [new]) s_nearest (length (objs st))
              = Inr True"
    using reached(4,5) by simp
  have "length h2 = Suc (length (objs st))"
    by (simp add: reached(4,6))
  with d have "parent (h3 ! dest) = Some (length (objs st))"
    by (simp add: reached(8) parent_update_fields)
  moreover have "x (h3 ! length (objs st)) = x new" "y (h3 ! length (objs st)) = y new"
    by (simp_all only: h3 h2 h1)
  ultimately have "brk \<and> parent (objs st' ! dest) = Some (length (objs st))
                    \<and> x (objs st' ! length (objs st)) = x new
                    \<and> y (objs st' ! length (objs st)) = y new"
    using reached(11) by (simp add: reached(10))
  with reached(1-3) near path show ?thesis
    by (intro exI [of _ s_rand] exI [of _ s_nearest] exI [of _ new]) simp
qed

lemma plan_loop_then_iteration:
  assumes "plan_loop fp self gen order dest r1 r2 n st0 = Some (Inr (st, False))"
    and "plan_iteration fp self gen order dest r1 r2 st = Some (Inr (st', brk))"
  shows "plan_loop fp self gen order dest r1 r2 (Suc n) st0 = Some (Inr (st', brk))"
    and "brk \<Longrightarrow> plan_loop fp self gen order dest r1 r2 (Suc (n + m)) st0
                   = Some (Inr (st', True))"
proof -
  have "plan_loop fp self gen order dest r1 r2 (n + Suc k) st0
        = plan_loop fp self gen order dest r1 r2 (Suc k) st" for k
    by (simp only: plan_loop_add assms(1)) simp
  then have eq: "plan_loop fp self gen order dest r1 r2 (Suc (n + k)) st0
        = plan_loop fp self gen order dest r1 r2 (Suc k) st" for k
    by simp
  show "plan_loop fp self gen order dest r1 r2 (Suc n) st0 = Some (Inr (st', brk))"
    using eq [of 0] assms(2) by simp
  show "plan_loop fp self gen order dest r1 r2 (Suc (n + m)) st0 = Some (Inr (st', True))"
    if brk
    using eq [of m] assms(2) that by simp
qed

section \<open>plan returns\<close>

text \<open>
  A call of \<open>plan\<close> on a free start without a parent and a free goal that is another
  object, on a map that is not empty, raises nothing and comes back: every iteration ends,
  also the one that follows the parent pointers from the goal, because the parents of the
  members lead to the start. What it returns is \<open>[start_state]\<close>.
\<close>

lemma sample_state_Inr:
  assumes "0 < nrows (world self)" and "0 < ncols (world self)"
  shows "\<exists>s. sample_state self gen k = Inr (s, k + 2)"
  using assms by (simp add: sample_state_def randint_def)

lemma path_is_obstacle_free_Inr:
  assumes "state_is_free self (h ! s_from)"
  shows "\<exists>b. path_is_obstacle_free fp self h s_from s_to = Inr b"
  using assms by (auto simp: path_is_obstacle_free_def)

lemma path_is_obstacle_free_True:
  assumes "path_is_obstacle_free fp self h s_from s_to = Inr True"
  shows "state_is_free self (h ! s_to)"
  using assms by (auto simp: path_is_obstacle_free_def split: if_splits)

lemma plan_iteration_progress:
  assumes ready: "plan_ready self start dest st"
    and ord: "\<And>xs. set (order xs) = set xs"
  shows "\<exists>st' brk. plan_iteration fp self gen order dest r1 r2 st = Some (Inr (st', brk))"
proof -
  from ready have inv: "run_inv start dest st"
    and size: "0 < nrows (world self)" "0 < ncols (world self)"
    and free: "list_all (\<lambda>n. state_is_free self (objs st ! n)) (tree_nodes st)"
    by (simp_all add: plan_ready_def)
  from inv have d: "dest < length (objs st)"
    and t: "tree_invariant (objs st) start (tree_nodes st)"
    and nd: "dest \<notin> set (tree_nodes st)"
    by (simp_all add: run_inv_def)
  have mem: "n < length (objs st)" if "n \<in> set (tree_nodes st)" for n
    using t that by (rule tree_invariant_members)
  have not_dest: "n \<noteq> dest" if "n \<in> set (tree_nodes st)" for n
    using that nd by blast
  from size obtain s_rand where s: "sample_state self gen (rng st) = Inr (s_rand, rng st + 2)"
    using sample_state_Inr by blast
  have "tree_nodes st \<noteq> []"
    using t by (rule tree_invariant_nonempty)
  then have "order (tree_nodes st) \<noteq> []"
    using ord [of "tree_nodes st"] by auto
  then obtain s_nearest where
    n: "find_closest_state fp (objs st) (order (tree_nodes st)) s_rand = Some s_nearest"
    using find_closest_state_Some by blast
  have nm: "s_nearest \<in> set (tree_nodes st)"
    using find_closest_state_member [OF n] ord by blast
  define new where "new = steer_towards fp self (objs st) s_nearest s_rand r1"
  define h1 where "h1 = objs st @ [new]"
  define h2 where "h2 = h1[s_nearest := (h1 ! s_nearest)
                \<lparr>children := children (h1 ! s_nearest) @ [length (objs st)]\<rparr>]"
  define h3 where "h3 = h2[dest := (h2 ! dest)\<lparr>parent := Some (length (objs st))\<rparr>]"
  have "state_is_free self (h1 ! s_nearest)"
    using free nm mem [OF nm] by (simp add: h1_def nth_append list_all_iff)
  then obtain b where pf: "path_is_obstacle_free fp self h1 s_nearest (length (objs st)) = Inr b"
    using path_is_obstacle_free_Inr by blast
  \<comment> \<open>the chain of parents from the goal, once it hangs below the new state\<close>
  from tree_invariant_chain [OF t nm] obtain ps where
    ps: "parent_chain (objs st) s_nearest ps" "set ps \<subseteq> set (tree_nodes st)"
    by blast
  have "parent_chain h3 s_nearest ps"
    using ps(1)
  proof (rule parent_chain_cong)
    fix n assume "n \<in> set (s_nearest # ps)"
    with nm ps(2) have m: "n \<in> set (tree_nodes st)" by auto
    from mem [OF m] not_dest [OF m] show "parent (h3 ! n) = parent (objs st ! n)"
      by (simp add: h3_def h2_def h1_def nth_list_update_if nth_append)
  qed
  moreover have "parent (h3 ! length (objs st)) = Some s_nearest"
    using d mem [OF nm]
    by (simp add: h3_def h2_def h1_def new_def nth_list_update_if steer_towards_parent)
  moreover have "parent (h3 ! dest) = Some (length (objs st))"
    using d by (simp add: h3_def h2_def h1_def nth_list_update_if)
  ultimately have "parent_chain h3 dest (length (objs st) # s_nearest # ps)"
    by simp
  then obtain p where p: "follow_parent_pointers h3 dest = Some p"
    using follow_parent_pointers_chain by blast
  show ?thesis
    using s n pf p
    by (cases b) (auto simp: plan_iteration_def Let_def h1_def [symmetric] new_def [symmetric]
          h2_def [symmetric] h3_def [symmetric])
qed

lemma plan_ready_step:
  assumes ready: "plan_ready self start dest st"
    and ord: "\<And>xs. set (order xs) = set xs"
    and step: "plan_iteration fp self gen order dest r1 r2 st = Some (Inr (st', brk))"
  shows "plan_ready self start dest st'"
proof -
  from ready have inv: "run_inv start dest st"
    and size: "0 < nrows (world self)" "0 < ncols (world self)"
    and free: "list_all (\<lambda>n. state_is_free self (objs st ! n)) (tree_nodes st)"
    by (simp_all add: plan_ready_def)
  from inv have t: "tree_invariant (objs st) start (tree_nodes st)"
    by (simp add: run_inv_def)
  have mem: "n < length (objs st)" if "n \<in> set (tree_nodes st)" for n
    using t that by (rule tree_invariant_members)
  have inv': "run_inv start dest st'"
    using inv _ step by (rule run_inv_step) (simp add: ord)
  \<comment> \<open>the members stay free when the new state is free and the coordinates are kept\<close>
  have keep: "list_all (\<lambda>n. state_is_free self (h' ! n))
                (set_add h1 (tree_nodes st) (length (objs st)))"
    if new: "state_is_free self (h' ! length (objs st))"
      and old: "\<And>n. n < length (objs st) \<Longrightarrow> x (h' ! n) = x (objs st ! n) \<and> y (h' ! n) = y (objs st ! n)"
    for h' h1
  proof -
    have "state_is_free self (h' ! n)" if "n \<in> set (tree_nodes st)" for n
    proof -
      from old [OF mem [OF that]]
      have "state_is_free self (h' ! n) = state_is_free self (objs st ! n)"
        by (intro state_is_free_coordinates) simp_all
      with free that show ?thesis
        by (simp add: list_all_iff)
    qed
    with new show ?thesis
      using set_add_cases [of h1 "tree_nodes st" "length (objs st)"]
      by (auto simp: list_all_iff)
  qed
  from step show ?thesis
  proof (cases rule: plan_iteration_Inr)
    case (blocked s_rand s_nearest new)
    from free have "list_all (\<lambda>n. state_is_free self ((objs st @ [new]) ! n)) (tree_nodes st)"
      by (auto simp: list_all_iff nth_append dest: mem)
    with inv' size blocked(5) show ?thesis
      by (simp add: plan_ready_def)
  next
    case (added s_rand s_nearest new h1 h2)
    have "list_all (\<lambda>n. state_is_free self (h2 ! n))
            (set_add h1 (tree_nodes st) (length (objs st)))"
    proof (rule keep)
      have "state_is_free self (h1 ! length (objs st))"
        using added(5) by (rule path_is_obstacle_free_True)
      then show "state_is_free self (h2 ! length (objs st))"
        by (simp add: added(6) children_update_fields cong: state_is_free_coordinates)
      show "x (h2 ! n) = x (objs st ! n) \<and> y (h2 ! n) = y (objs st ! n)"
        if "n < length (objs st)" for n
        using that by (simp add: added(4,6) nth_list_update_if nth_append)
    qed
    then show ?thesis
      using inv' size by (simp add: plan_ready_def added(8))
  next
    case (reached s_rand s_nearest new h1 h2 h3 p)
    have "list_all (\<lambda>n. state_is_free self (h3 ! n))
            (set_add h1 (tree_nodes st) (length (objs st)))"
    proof (rule keep)
      have "state_is_free self (h1 ! length (objs st))"
        using reached(5) by (rule path_is_obstacle_free_True)
      moreover have "state_is_free self (h3 ! length (objs st))
                     = state_is_free self (h1 ! length (objs st))"
        by (rule state_is_free_coordinates)
           (simp_all add: reached(6,8) children_update_fields parent_update_fields)
      ultimately show "state_is_free self (h3 ! length (objs st))"
        by simp
      show "x (h3 ! n) = x (objs st ! n) \<and> y (h3 ! n) = y (objs st ! n)"
        if "n < length (objs st)" for n
        using that
        by (simp add: reached(4,6,8) nth_list_update_if nth_append)
    qed
    then show ?thesis
      using inv' size by (simp add: plan_ready_def reached(10))
  qed
qed

lemma plan_loop_returns:
  assumes "\<And>xs. set (order xs) = set xs"
    and "plan_ready self start dest st"
  shows "\<exists>st' brk. plan_loop fp self gen order dest r1 r2 n st = Some (Inr (st', brk))"
  using assms(2)
proof (induction n arbitrary: st)
  case 0
  show ?case by auto
next
  case (Suc n)
  from plan_iteration_progress [OF Suc.prems assms(1)] obtain st1 brk where
    step: "plan_iteration fp self gen order dest r1 r2 st = Some (Inr (st1, brk))"
    by blast
  show ?case
  proof (cases brk)
    case True
    with step show ?thesis by auto
  next
    case False
    from Suc.prems assms(1) step have "plan_ready self start dest st1"
      by (rule plan_ready_step)
    from Suc.IH [OF this] False step show ?thesis
      by auto
  qed
qed

lemma plan_ready_init:
  assumes "start < length h" and "dest < length h" and "start \<noteq> dest"
    and "parent (h ! start) = None"
    and "0 < nrows (world self)" and "0 < ncols (world self)"
    and "state_is_free self (h ! start)"
  shows "plan_ready self start dest
           \<lparr>objs = h, tree_nodes = [start], rng = 0, plan_var = [start]\<rparr>"
  using assms by (simp add: plan_ready_def run_inv_init)

lemma plan_returns:
  assumes "start_state < length h" and "dest_state < length h" and "start_state \<noteq> dest_state"
    and "parent (h ! start_state) = None"
    and "0 < nrows (world self)" and "0 < ncols (world self)"
    and "state_is_free self (h ! start_state)" and "state_is_free self (h ! dest_state)"
    and "\<And>xs. set (order xs) = set xs"
  shows "\<exists>res. plan fp self gen order h start_state dest_state n r1 r2 = Some (Inr res)
           \<and> returned res = [start_state]"
proof -
  have "plan_ready self start_state dest_state
          \<lparr>objs = h, tree_nodes = [start_state], rng = 0, plan_var = [start_state]\<rparr>"
    using assms(1-7) by (rule plan_ready_init)
  with assms(9) obtain st' brk where
    "plan_loop fp self gen order dest_state r1 r2 n
       \<lparr>objs = h, tree_nodes = [start_state], rng = 0, plan_var = [start_state]\<rparr>
     = Some (Inr (st', brk))"
    using plan_loop_returns by blast
  with assms(7,8) show ?thesis
    by (auto simp: plan_def)
qed

section \<open>What plan returns and what it changes\<close>

lemma plan_goal_result:
  assumes "dest_state < length h"
    and "plan fp self gen order h start_state dest_state n r1 r2 = Some (Inr res)"
  shows "x (objs (final res) ! dest_state) = x (h ! dest_state)
       \<and> y (objs (final res) ! dest_state) = y (h ! dest_state)
       \<and> (if reached res
          then \<exists>s_new. length h \<le> s_new \<and> s_new < length (objs (final res))
                 \<and> parent (objs (final res) ! dest_state) = Some s_new
                 \<and> euclidean_distance fp (objs (final res) ! s_new)
                       (objs (final res) ! dest_state) < r2
          else parent (objs (final res) ! dest_state) = parent (h ! dest_state))"
  using plan_loop_dest [OF _ plan_Inr(3) [OF assms(2)]] assms(1)
  by (simp split: if_splits)

text \<open>
  C10. \<open>st\<close> is the state after \<open>n\<close> iterations without \<open>break\<close> and \<open>st'\<close> the state
  after one more. A call with the budget \<open>n\<close> ends in \<open>st\<close>, where the goal is as it was
  passed in: coordinates and parent. The next iteration creates the state \<open>new\<close>. If the
  path to it is free and it is within the radius of the goal, the loop breaks and the
  parent of the goal is the new state, whatever the budget left; in every other case the
  loop goes on and the parent of the goal is still as it was passed in. The coordinates of
  the goal are never changed.
\<close>

theorem plan_goal_frame:
  assumes "dest_state < length h"
    and "state_is_free self (h ! start_state)" and "state_is_free self (h ! dest_state)"
    and "plan_loop fp self gen order dest_state r1 r2 n
           \<lparr>objs = h, tree_nodes = [start_state], rng = 0, plan_var = [start_state]\<rparr>
         = Some (Inr (st, False))"
    and "plan_iteration fp self gen order dest_state r1 r2 st = Some (Inr (st', brk))"
  shows "plan fp self gen order h start_state dest_state n r1 r2
           = Some (Inr \<lparr>final = st, reached = False, returned = [start_state]\<rparr>)
       \<and> x (objs st ! dest_state) = x (h ! dest_state)
       \<and> y (objs st ! dest_state) = y (h ! dest_state)
       \<and> parent (objs st ! dest_state) = parent (h ! dest_state)
       \<and> plan fp self gen order h start_state dest_state (Suc n) r1 r2
           = Some (Inr \<lparr>final = st', reached = brk, returned = [start_state]\<rparr>)
       \<and> (brk \<longrightarrow> plan fp self gen order h start_state dest_state (Suc (n + m)) r1 r2
                    = Some (Inr \<lparr>final = st', reached = True, returned = [start_state]\<rparr>))
       \<and> x (objs st' ! dest_state) = x (h ! dest_state)
       \<and> y (objs st' ! dest_state) = y (h ! dest_state)
       \<and> (\<exists>s_rand s_nearest new.
            sample_state self gen (rng st) = Inr (s_rand, rng st + 2)
            \<and> find_closest_state fp (objs st) (order (tree_nodes st)) s_rand = Some s_nearest
            \<and> new = steer_towards fp self (objs st) s_nearest s_rand r1
            \<and> (if path_is_obstacle_free fp self (objs st @ [new]) s_nearest (length (objs st))
                    = Inr True
                  \<and> euclidean_distance fp new (objs st ! dest_state) < r2
                then brk \<and> parent (objs st' ! dest_state) = Some (length (objs st))
                     \<and> x (objs st' ! length (objs st)) = x new
                     \<and> y (objs st' ! length (objs st)) = y new
                else \<not> brk \<and> parent (objs st' ! dest_state) = parent (h ! dest_state)))"
proof -
  let ?init = "\<lparr>objs = h, tree_nodes = [start_state], rng = 0, plan_var = [start_state]\<rparr>"
  from assms(1) have d0: "dest_state < length (objs ?init)"
    by simp
  from plan_loop_dest [OF d0 assms(4)]
  have len: "length h \<le> length (objs st)"
    and xs: "x (objs st ! dest_state) = x (h ! dest_state)"
    and ys: "y (objs st ! dest_state) = y (h ! dest_state)"
    and ps: "parent (objs st ! dest_state) = parent (h ! dest_state)"
    by simp_all
  from assms(1) len have d: "dest_state < length (objs st)"
    by simp
  note it = plan_iteration_dest [OF d assms(5)]
  note loops = plan_loop_then_iteration [OF assms(4,5)]
  have p0: "plan fp self gen order h start_state dest_state n r1 r2
           = Some (Inr \<lparr>final = st, reached = False, returned = [start_state]\<rparr>)"
    using assms(2,3,4) by (simp add: plan_def)
  have p1: "plan fp self gen order h start_state dest_state (Suc n) r1 r2
           = Some (Inr \<lparr>final = st', reached = brk, returned = [start_state]\<rparr>)"
    using assms(2,3) loops(1) by (simp only: plan_def) simp
  have p2: "brk \<longrightarrow> plan fp self gen order h start_state dest_state (Suc (n + m)) r1 r2
                    = Some (Inr \<lparr>final = st', reached = True, returned = [start_state]\<rparr>)"
    using assms(2,3) loops(2) [of m] by (simp only: plan_def) simp
  have xs': "x (objs st' ! dest_state) = x (h ! dest_state)"
    and ys': "y (objs st' ! dest_state) = y (h ! dest_state)"
    using it(3,4) xs ys by simp_all
  have step: "\<exists>s_rand s_nearest new.
            sample_state self gen (rng st) = Inr (s_rand, rng st + 2)
            \<and> find_closest_state fp (objs st) (order (tree_nodes st)) s_rand = Some s_nearest
            \<and> new = steer_towards fp self (objs st) s_nearest s_rand r1
            \<and> (if path_is_obstacle_free fp self (objs st @ [new]) s_nearest (length (objs st))
                    = Inr True
                  \<and> euclidean_distance fp new (objs st ! dest_state) < r2
                then brk \<and> parent (objs st' ! dest_state) = Some (length (objs st))
                     \<and> x (objs st' ! length (objs st)) = x new
                     \<and> y (objs st' ! length (objs st)) = y new
                else \<not> brk \<and> parent (objs st' ! dest_state) = parent (h ! dest_state))"
    using plan_iteration_goal [OF d assms(5)] by (simp only: ps)
  from p0 xs ys ps p1 p2 xs' ys' step show ?thesis
    by (intro conjI)
qed

text \<open>
  C7, as the code has it. \<open>plan\<close> has no test of the start against the goal: when start
  and goal are equal and \<open>max_num_steps\<close> is at least 1, a run that returns has drawn a
  sample (two draws of the generator) and has created a state by steering.
\<close>

theorem plan_start_equals_goal_samples:
  assumes "State_eq (h ! start_state) (h ! dest_state)" and "0 < r2"
    and "dest_state < length h"
    and "plan fp self gen order h start_state dest_state (Suc n) r1 r2 = Some (Inr res)"
  shows "2 \<le> rng (final res) \<and> length h < length (objs (final res))"
proof -
  let ?init = "\<lparr>objs = h, tree_nodes = [start_state], rng = 0, plan_var = [start_state]\<rparr>"
  have loop: "plan_loop fp self gen order dest_state r1 r2 (Suc n) ?init
              = Some (Inr (final res, reached res))"
    using assms(4) by (rule plan_Inr)
  from assms(3) have d: "dest_state < length (objs ?init)"
    by simp
  from loop show ?thesis
  proof (cases rule: plan_loop_Suc_Inr)
    case stop
    from plan_iteration_dest(1,2) [OF d stop(1)] show ?thesis
      by simp
  next
    case (continue st1)
    note it = plan_iteration_dest(1,2) [OF d continue(1)]
    from assms(3) it(1) have "dest_state < length (objs st1)"
      by simp
    from plan_loop_dest [OF this continue(2)] it show ?thesis
      by simp
  qed
qed

text \<open>
  C6. With start and goal free, \<open>plan\<close> with no iteration returns \<open>[start_state]\<close>, and
  so does every run whose loop uses up its iterations without \<open>break\<close>.
\<close>

theorem plan_exhausted:
  assumes "state_is_free self (h ! start_state)" and "state_is_free self (h ! dest_state)"
  shows "plan fp self gen order h start_state dest_state 0 r1 r2
           = Some (Inr \<lparr>final = \<lparr>objs = h, tree_nodes = [start_state], rng = 0,
                                  plan_var = [start_state]\<rparr>,
                         reached = False, returned = [start_state]\<rparr>)
       \<and> (plan_loop fp self gen order dest_state r1 r2 n
             \<lparr>objs = h, tree_nodes = [start_state], rng = 0, plan_var = [start_state]\<rparr>
           = Some (Inr (st, False))
          \<longrightarrow> plan fp self gen order h start_state dest_state n r1 r2
                = Some (Inr \<lparr>final = st, reached = False, returned = [start_state]\<rparr>))"
  using assms by (simp add: plan_def)

lemma plan_reached_example:
  assumes "accurate fp u"
  shows "plan fp (RRTPlanner_init free_world) (gen_to 50 58) (\<lambda>xs. xs) two_states 0 1 1 30 5
   = Some (Inr \<lparr>final = reached_state, reached = True, returned = [0]\<rparr>)"
  by (simp add: plan_def state_is_free_free_world
        iteration_reached [OF assms, unfolded One_nat_def])

lemma plan_exhausted_example:
  assumes "accurate fp u"
  shows "plan fp (RRTPlanner_init free_world) (gen_to 50 90) (\<lambda>xs. xs) two_states 0 1 1 30 5
   = Some (Inr \<lparr>final = exhausted_state, reached = False, returned = [0]\<rparr>)"
  by (simp add: plan_def state_is_free_free_world
        iteration_exhausted [OF assms, unfolded One_nat_def])

lemma plan_same_example:
  assumes "accurate fp u"
  shows "plan fp (RRTPlanner_init free_world) (gen_to 50 90) (\<lambda>xs. xs) same_states 0 1 1 30 5
   = Some (Inr \<lparr>final = same_state, reached = False, returned = [0]\<rparr>)"
  by (simp add: plan_def state_is_free_free_world
        iteration_same_start_goal [OF assms, unfolded One_nat_def])

lemma plan_same_object_example:
  assumes "accurate fp u"
  shows "plan fp (RRTPlanner_init free_world) (gen_to 50 50) (\<lambda>xs. xs) [new_State 50 50 None]
           0 0 (Suc n) 30 5 = None"
  by (simp add: plan_def state_is_free_free_world iteration_same_object [OF assms])

text \<open>
  C1. In the run from \<open>two_states\<close> whose sample is (50, 58), the new state is 2 away
  from the goal, within the radius 5: the goal gets it as parent and the path
  \<open>[0, 2, 1, 1]\<close> is extracted into the variable \<open>plan\<close>. The call still returns
  \<open>[start_state]\<close>, of length 1, against the docstring of \<open>plan\<close> ("Returns a path as a
  sequence of states [start_state, ..., dest_state] if dest_state is reachable"). The run
  computes on small integers only, so it is the same for every accurate arithmetic (lemma
  \<open>plan_reached_example\<close>); it is stated for the arithmetic without rounding.
\<close>

theorem plan_returns_start_after_reaching:
  "plan exact_float (RRTPlanner_init free_world) (gen_to 50 58) (\<lambda>xs. xs) two_states 0 1 1 30 5
   = Some (Inr \<lparr>final = reached_state, reached = True, returned = [0]\<rparr>)
   \<and> euclidean_distance exact_float (objs reached_state ! 2) (objs reached_state ! 1) < 5
   \<and> parent (objs reached_state ! 1) = Some 2
   \<and> plan_var reached_state = [0, 2, 1, 1]"
proof -
  have "euclidean_distance exact_float (objs reached_state ! 2) (objs reached_state ! 1) < 5"
    using euclidean_distance_int(2) [OF accurate_exact_float, of 2 "objs reached_state ! 1"
        "objs reached_state ! 2" 5]
    by (simp add: reached_state_def)
  then show ?thesis
    by (intro conjI plan_reached_example [OF accurate_exact_float])
       (simp_all add: reached_state_def)
qed

theorem plan_exhausted_witness:
  "state_is_free (RRTPlanner_init free_world) (two_states ! 0)
   \<and> state_is_free (RRTPlanner_init free_world) (two_states ! 1)
   \<and> plan_loop exact_float (RRTPlanner_init free_world) (gen_to 50 90) (\<lambda>xs. xs) 1 30 5 1
        \<lparr>objs = two_states, tree_nodes = [0], rng = 0, plan_var = [0]\<rparr>
      = Some (Inr (exhausted_state, False))
   \<and> plan exact_float (RRTPlanner_init free_world) (gen_to 50 90) (\<lambda>xs. xs) two_states 0 1 1 30 5
      = Some (Inr \<lparr>final = exhausted_state, reached = False, returned = [0]\<rparr>)
   \<and> plan exact_float (RRTPlanner_init free_world) (gen_to 50 90) (\<lambda>xs. xs) two_states 0 1 0 30 5
      = Some (Inr \<lparr>final = \<lparr>objs = two_states, tree_nodes = [0], rng = 0, plan_var = [0]\<rparr>,
                    reached = False, returned = [0]\<rparr>)"
proof -
  have f: "state_is_free (RRTPlanner_init free_world) (two_states ! 0)"
    "state_is_free (RRTPlanner_init free_world) (two_states ! 1)"
    by (rule state_is_free_free_world)+
  have l: "plan_loop exact_float (RRTPlanner_init free_world) (gen_to 50 90) (\<lambda>xs. xs) 1 30 5 1
        \<lparr>objs = two_states, tree_nodes = [0], rng = 0, plan_var = [0]\<rparr>
      = Some (Inr (exhausted_state, False))"
    by (simp add: iteration_exhausted [OF accurate_exact_float, unfolded One_nat_def])
  from plan_exhausted [OF f, of exact_float "gen_to 50 90" "\<lambda>xs. xs" 30 5 1 exhausted_state] l
  have "plan exact_float (RRTPlanner_init free_world) (gen_to 50 90) (\<lambda>xs. xs) two_states 0 1 1 30 5
      = Some (Inr \<lparr>final = exhausted_state, reached = False, returned = [0]\<rparr>)"
    and "plan exact_float (RRTPlanner_init free_world) (gen_to 50 90) (\<lambda>xs. xs) two_states 0 1 0 30 5
      = Some (Inr \<lparr>final = \<lparr>objs = two_states, tree_nodes = [0], rng = 0, plan_var = [0]\<rparr>,
                    reached = False, returned = [0]\<rparr>)"
    by blast+
  with f l show ?thesis
    by (intro conjI)
qed

theorem plan_goal_frame_witness:
  "1 < length two_states
   \<and> state_is_free (RRTPlanner_init free_world) (two_states ! 0)
   \<and> state_is_free (RRTPlanner_init free_world) (two_states ! 1)
   \<and> plan_loop exact_float (RRTPlanner_init free_world) (gen_to 50 58) (\<lambda>xs. xs) 1 30 5 0
        \<lparr>objs = two_states, tree_nodes = [0], rng = 0, plan_var = [0]\<rparr>
      = Some (Inr (\<lparr>objs = two_states, tree_nodes = [0], rng = 0, plan_var = [0]\<rparr>, False))
   \<and> plan_iteration exact_float (RRTPlanner_init free_world) (gen_to 50 58) (\<lambda>xs. xs) 1 30 5
        \<lparr>objs = two_states, tree_nodes = [0], rng = 0, plan_var = [0]\<rparr>
      = Some (Inr (reached_state, True))
   \<and> plan exact_float (RRTPlanner_init free_world) (gen_to 50 58) (\<lambda>xs. xs) two_states 0 1
        (Suc 0) 30 5
      = Some (Inr \<lparr>final = reached_state, reached = True, returned = [0]\<rparr>)
   \<and> plan exact_float (RRTPlanner_init free_world) (gen_to 50 58) (\<lambda>xs. xs) two_states 0 1
        (Suc (0 + 7)) 30 5
      = Some (Inr \<lparr>final = reached_state, reached = True, returned = [0]\<rparr>)
   \<and> x (objs reached_state ! 1) = x (two_states ! 1)
   \<and> y (objs reached_state ! 1) = y (two_states ! 1)
   \<and> parent (two_states ! 1) = None
   \<and> parent (objs reached_state ! 1) = Some 2"
proof -
  have len: "1 < length two_states"
    by (simp add: two_states_def)
  have f: "state_is_free (RRTPlanner_init free_world) (two_states ! 0)"
    "state_is_free (RRTPlanner_init free_world) (two_states ! 1)"
    by (rule state_is_free_free_world)+
  have l: "plan_loop exact_float (RRTPlanner_init free_world) (gen_to 50 58) (\<lambda>xs. xs) 1 30 5 0
        \<lparr>objs = two_states, tree_nodes = [0], rng = 0, plan_var = [0]\<rparr>
      = Some (Inr (\<lparr>objs = two_states, tree_nodes = [0], rng = 0, plan_var = [0]\<rparr>, False))"
    by simp
  note i = iteration_reached [OF accurate_exact_float]
  note t = plan_goal_frame [OF len f l i, of 7]
  from t have a: "plan exact_float (RRTPlanner_init free_world) (gen_to 50 58) (\<lambda>xs. xs)
        two_states 0 1 (Suc 0) 30 5
      = Some (Inr \<lparr>final = reached_state, reached = True, returned = [0]\<rparr>)"
    "plan exact_float (RRTPlanner_init free_world) (gen_to 50 58) (\<lambda>xs. xs) two_states 0 1
        (Suc (0 + 7)) 30 5
      = Some (Inr \<lparr>final = reached_state, reached = True, returned = [0]\<rparr>)"
    "x (objs reached_state ! 1) = x (two_states ! 1)"
    "y (objs reached_state ! 1) = y (two_states ! 1)"
    by blast+
  have c: "parent (two_states ! 1) = None" "parent (objs reached_state ! 1) = Some 2"
    by (simp_all add: two_states_def reached_state_def)
  from len f l i a c show ?thesis
    by (intro conjI)
qed

text \<open>
  With start and goal both at (50, 50), one iteration and the sample (50, 90), the call
  draws the sample (the generator has advanced by 2) and returns \<open>[start_state]\<close>, not
  the start followed by the goal.
\<close>

theorem plan_start_equals_goal_counterexample:
  "State_eq (same_states ! 0) (same_states ! 1)
   \<and> plan exact_float (RRTPlanner_init free_world) (gen_to 50 90) (\<lambda>xs. xs) same_states 0 1 1 30 5
      = Some (Inr \<lparr>final = same_state, reached = False, returned = [0]\<rparr>)
   \<and> rng same_state = 2
   \<and> [0::nat] \<noteq> [0, 1]"
  by (intro conjI plan_same_example [OF accurate_exact_float])
     (simp_all add: same_states_def State_eq_def same_state_def)

theorem plan_start_equals_goal_samples_witness:
  "State_eq (same_states ! 0) (same_states ! 1) \<and> (0::real) < 5 \<and> 1 < length same_states
   \<and> plan exact_float (RRTPlanner_init free_world) (gen_to 50 90) (\<lambda>xs. xs) same_states 0 1
        (Suc 0) 30 5
      = Some (Inr \<lparr>final = same_state, reached = False, returned = [0]\<rparr>)
   \<and> 2 \<le> rng same_state
   \<and> length same_states < length (objs same_state)"
proof -
  have e: "State_eq (same_states ! 0) (same_states ! 1)"
    by (simp add: same_states_def State_eq_def)
  have r: "(0::real) < 5"
    by simp
  have l: "1 < length same_states"
    by (simp add: same_states_def)
  have p: "plan exact_float (RRTPlanner_init free_world) (gen_to 50 90) (\<lambda>xs. xs) same_states 0 1
             (Suc 0) 30 5
           = Some (Inr \<lparr>final = same_state, reached = False, returned = [0]\<rparr>)"
    using plan_same_example [OF accurate_exact_float] by simp
  from plan_start_equals_goal_samples [OF e r l p]
  have "2 \<le> rng same_state" "length same_states < length (objs same_state)"
    by simp_all
  with e r l p show ?thesis
    by (intro conjI)
qed

end
